theory Spec2Isabelle
  imports Main
begin

section \<open>JavaScript values and strings\<close>

text \<open>
  The Cloud Functions module works on Firestore document data: nested objects, arrays
  and scalars. An object is the list of its entries in the order \<^verbatim>\<open>Object.entries\<close>
  enumerates them. A string is a list of code units; \<^typ>\<open>char\<close> stands for a code
  unit below 256.
\<close>

datatype jsval =
    JNull
  | JBool bool
  | JNum int
  | JStr string
  | JArr "jsval list"
  | JObj "(string \<times> jsval) list"

definition code :: "char \<Rightarrow> nat" where
  "code c = of_char c"

definition in_range :: "char \<Rightarrow> char \<Rightarrow> char \<Rightarrow> bool" where
  "in_range lo hi c = (code lo \<le> code c \<and> code c \<le> code hi)"

definition lower_alphabet :: string where
  "lower_alphabet = ''abcdefghijklmnopqrstuvwxyz''"

definition upper_alphabet :: string where
  "upper_alphabet = ''ABCDEFGHIJKLMNOPQRSTUVWXYZ''"

text \<open>
  \<^verbatim>\<open>toLowerCase\<close> and \<^verbatim>\<open>toUpperCase\<close> on one code unit. Only the ASCII letters are
  mapped: the module applies them to matches of the name pattern (ASCII letters and white
  space) and, through the \<^verbatim>\<open>i\<close> flag, to pattern characters that are all ASCII.
\<close>

definition to_lower :: "char \<Rightarrow> char" where
  "to_lower c = (case map_of (zip upper_alphabet lower_alphabet) c of Some d \<Rightarrow> d | None \<Rightarrow> c)"

definition to_upper :: "char \<Rightarrow> char" where
  "to_upper c = (case map_of (zip lower_alphabet upper_alphabet) c of Some d \<Rightarrow> d | None \<Rightarrow> c)"

definition toLowerCase :: "string \<Rightarrow> string" where
  "toLowerCase s = map to_lower s"

definition startsWith :: "string \<Rightarrow> string \<Rightarrow> bool" where
  "startsWith s p = (take (length p) s = p)"

fun includes_str :: "string \<Rightarrow> string \<Rightarrow> bool" where
  "includes_str [] sub = (sub = [])"
| "includes_str (c # cs) sub = (startsWith (c # cs) sub \<or> includes_str cs sub)"

definition substring :: "string \<Rightarrow> nat \<Rightarrow> nat \<Rightarrow> string" where
  "substring s b e = take (e - b) (drop b s)"

definition digit_char :: "nat \<Rightarrow> char" where
  "digit_char d = ''0123456789'' ! d"

function show_nat :: "nat \<Rightarrow> string" where
  "show_nat n = (if n < 10 then [digit_char n] else show_nat (n div 10) @ [digit_char (n mod 10)])"
  by pat_completeness auto
termination
  by (relation "measure id") auto

declare show_nat.simps [simp del]

section \<open>Regular expressions\<close>

text \<open>
  The fragment of the regular-expression language that \<^verbatim>\<open>PHI_PATTERNS\<close> uses: character
  classes (a literal is a class of one), \<^verbatim>\<open>\b\<close>, sequence, alternation, greedy
  quantifiers on a class, and negative lookahead. Capture groups do not show in the result
  of \<^verbatim>\<open>String.prototype.match\<close> with a global pattern, so a group is its body.
\<close>

datatype citem =
    CChar char
  | CRange char char
  | CDigit
  | CSpace

type_synonym cclass = "citem list"

datatype regex =
    Eps
  | Atom cclass
  | WordB
  | Seq regex regex
  | Alt regex regex
  | Rep nat "nat option" cclass
  | NegLook regex

text \<open>
  A pattern object. Every pattern of the module carries the \<^verbatim>\<open>g\<close> flag, so only the
  \<^verbatim>\<open>i\<close> flag is recorded; the mutable \<^verbatim>\<open>lastIndex\<close> of each pattern object is
  kept in the state the functions below pass along.
\<close>

record regexp =
  source :: regex
  ignoreCase :: bool

fun seq :: "regex list \<Rightarrow> regex" where
  "seq [] = Eps"
| "seq [r] = r"
| "seq (r # rs) = Seq r (seq rs)"

fun alts :: "regex list \<Rightarrow> regex" where
  "alts [] = Eps"
| "alts [r] = r"
| "alts (r # rs) = Alt r (alts rs)"

definition lit :: "string \<Rightarrow> regex" where
  "lit s = seq (map (\<lambda>c. Atom [CChar c]) s)"

definition white_space :: "nat list" where
  "white_space = [9, 10, 11, 12, 13, 32, 160]"

fun item_has :: "citem \<Rightarrow> char \<Rightarrow> bool" where
  "item_has (CChar a) c = (c = a)"
| "item_has (CRange a b) c = in_range a b c"
| "item_has CDigit c = in_range CHR ''0'' CHR ''9'' c"
| "item_has CSpace c = (code c \<in> set white_space)"

text \<open>
  With the \<^verbatim>\<open>i\<close> flag a code unit matches a class when some member of the class has the
  same canonical (upper-case) form; for the classes of this module that is the code unit
  itself, its upper-case or its lower-case form.
\<close>

definition cls_match :: "bool \<Rightarrow> cclass \<Rightarrow> char \<Rightarrow> bool" where
  "cls_match ic cl c =
     (\<exists>it \<in> set cl. item_has it c \<or> (ic \<and> (item_has it (to_upper c) \<or> item_has it (to_lower c))))"

definition is_word :: "char \<Rightarrow> bool" where
  "is_word c = (in_range CHR ''a'' CHR ''z'' c \<or> in_range CHR ''A'' CHR ''Z'' c
                 \<or> in_range CHR ''0'' CHR ''9'' c \<or> c = CHR ''_'')"

text \<open>
  A position in the input: the code unit before it (if any) and the input that remains.
  The matcher returns every way a pattern can match at a position, in the order the
  backtracking engine tries them; the head of the list is the match the engine reports.
\<close>

type_synonym pos = "char option \<times> string"

definition word_before :: "char option \<Rightarrow> bool" where
  "word_before p = (case p of None \<Rightarrow> False | Some c \<Rightarrow> is_word c)"

definition word_after :: "string \<Rightarrow> bool" where
  "word_after cs = (case cs of [] \<Rightarrow> False | c # _ \<Rightarrow> is_word c)"

fun rep_cls :: "bool \<Rightarrow> cclass \<Rightarrow> nat \<Rightarrow> nat option \<Rightarrow> char option \<Rightarrow> string \<Rightarrow> pos list" where
  "rep_cls ic cl mn mx p [] = (if mn = 0 then [(p, [])] else [])"
| "rep_cls ic cl mn mx p (c # cs) =
     (if mx = Some 0 then [(p, c # cs)]
      else (if cls_match ic cl c
            then rep_cls ic cl (mn - 1) (map_option (\<lambda>m. m - 1) mx) (Some c) cs
            else [])
           @ (if mn = 0 then [(p, c # cs)] else []))"

fun ms :: "bool \<Rightarrow> regex \<Rightarrow> pos \<Rightarrow> pos list" where
  "ms ic Eps x = [x]"
| "ms ic (Atom cl) (p, cs) =
     (case cs of [] \<Rightarrow> [] | c # cs' \<Rightarrow> if cls_match ic cl c then [(Some c, cs')] else [])"
| "ms ic WordB (p, cs) = (if word_before p \<noteq> word_after cs then [(p, cs)] else [])"
| "ms ic (Seq a b) x = concat (map (ms ic b) (ms ic a x))"
| "ms ic (Alt a b) x = ms ic a x @ ms ic b x"
| "ms ic (Rep mn mx cl) (p, cs) = rep_cls ic cl mn mx p cs"
| "ms ic (NegLook r) x = (if ms ic r x = [] then [x] else [])"

definition pos_at :: "string \<Rightarrow> nat \<Rightarrow> pos" where
  "pos_at s i = ((if i = 0 then None else Some (s ! (i - 1))), drop i s)"

text \<open>One attempt at index \<open>i\<close>: the end index of the match, if the pattern matches there.\<close>

definition match_at :: "regexp \<Rightarrow> string \<Rightarrow> nat \<Rightarrow> nat option" where
  "match_at re s i =
     (case ms (ignoreCase re) (source re) (pos_at s i) of
        [] \<Rightarrow> None
      | (p, rest) # _ \<Rightarrow> Some (i + (length (drop i s) - length rest)))"

text \<open>
  The search of \<^verbatim>\<open>RegExpBuiltinExec\<close> for a global pattern: it starts at index \<open>i\<close>
  (the pattern's \<^verbatim>\<open>lastIndex\<close>) and moves right one code unit at a time. The result is
  the start and end index of the first match found.
\<close>

function exec_scan :: "regexp \<Rightarrow> string \<Rightarrow> nat \<Rightarrow> (nat \<times> nat) option" where
  "exec_scan re s i =
     (if i > length s then None
      else case match_at re s i of
             Some e \<Rightarrow> Some (i, e)
           | None \<Rightarrow> exec_scan re s (i + 1))"
  by pat_completeness auto
termination
  by (relation "measure (\<lambda>(re, s, i). length s + 1 - i)") auto

declare exec_scan.simps [simp del]

text \<open>
  The loop of \<^verbatim>\<open>String.prototype.match\<close> for a global pattern: it collects the matched
  strings until \<^verbatim>\<open>exec\<close> fails, and steps over an empty match. A successful
  \<^verbatim>\<open>exec\<close> sets \<^verbatim>\<open>lastIndex\<close> to the end of the match, a failed one resets it to 0.
\<close>

function match_loop :: "regexp \<Rightarrow> string \<Rightarrow> nat \<Rightarrow> string list \<Rightarrow> string list option \<times> nat" where
  "match_loop re s lastIndex A =
     (case exec_scan re s lastIndex of
        None \<Rightarrow> (if A = [] then None else Some A, 0)
      | Some (b, e) \<Rightarrow>
          (let matchStr = substring s b e
           in match_loop re s (if matchStr = [] then e + 1 else e) (A @ [matchStr])))"
  by pat_completeness auto
termination
proof (relation "measure (\<lambda>(re, s, lastIndex, A). length s + 1 - lastIndex)")
  show "wf (measure (\<lambda>(re, s, lastIndex, A). length s + 1 - lastIndex))"
    by simp
next
  fix re :: regexp and s :: string and lastIndex :: nat and A :: "string list"
    and x2 :: "nat \<times> nat" and b e :: nat and matchStr :: string
  assume ex: "exec_scan re s lastIndex = Some x2" and x2: "(b, e) = x2"
    and m: "matchStr = substring s b e"
  have "exec_scan re s i = Some (b, e) \<Longrightarrow> i \<le> b \<and> b \<le> length s \<and> b \<le> e" for i
  proof (induction re s i rule: exec_scan.induct)
    case (1 re s i)
    show ?case
    proof (cases "match_at re s i")
      case None
      with "1.prems" have le: "\<not> i > length s" and rec: "exec_scan re s (i + 1) = Some (b, e)"
        by (auto simp: exec_scan.simps [of re s i] split: if_splits)
      from "1.IH" [OF le None rec] show ?thesis by simp
    next
      case (Some e')
      with "1.prems" show ?thesis
        by (auto simp: exec_scan.simps [of re s i] match_at_def split: if_splits list.splits)
    qed
  qed
  with ex x2 have bounds: "lastIndex \<le> b \<and> b \<le> length s \<and> b \<le> e"
    by simp
  have "matchStr \<noteq> [] \<Longrightarrow> b < e"
    using m by (auto simp: substring_def)
  with bounds
  show "((re, s, if matchStr = [] then e + 1 else e, A @ [matchStr]), (re, s, lastIndex, A))
          \<in> measure (\<lambda>(re, s, lastIndex, A). length s + 1 - lastIndex)"
    by auto
qed

declare match_loop.simps [simp del]

text \<open>
  \<^verbatim>\<open>text.match(pattern)\<close> for a global pattern whose \<^verbatim>\<open>lastIndex\<close> is \<open>lastIndex\<close>
  at the call: it first sets \<^verbatim>\<open>lastIndex\<close> to 0, then runs the loop. The result is
  \<^verbatim>\<open>null\<close> (here \<open>None\<close>) when nothing matched; the second component is the pattern's
  \<^verbatim>\<open>lastIndex\<close> afterwards.
\<close>

definition string_match :: "regexp \<Rightarrow> nat \<Rightarrow> string \<Rightarrow> string list option \<times> nat" where
  "string_match re lastIndex s = (let lastIndex = 0 in match_loop re s lastIndex [])"

section \<open>PHI detection patterns\<close>

datatype detector =
    fullName
  | mrn
  | dob
  | ssn
  | phone
  | personalEmail
  | exactDate
  | address

definition letters :: cclass where
  "letters = [CRange CHR ''a'' CHR ''z'', CRange CHR ''A'' CHR ''Z'']"

definition alnum :: cclass where
  "alnum = letters @ [CRange CHR ''0'' CHR ''9'']"

definition star :: "cclass \<Rightarrow> regex" where
  "star cl = Rep 0 None cl"

definition plus :: "cclass \<Rightarrow> regex" where
  "plus cl = Rep 1 None cl"

definition opt :: "cclass \<Rightarrow> regex" where
  "opt cl = Rep 0 (Some 1) cl"

text \<open>\<^verbatim>\<open>/\b[A-Z][a-z]{2,}\s+[A-Z][a-z]{2,}\b/g\<close>\<close>

definition fullName_re :: regexp where
  "fullName_re = \<lparr>source = seq
     [WordB, Atom [CRange CHR ''A'' CHR ''Z''], Rep 2 None [CRange CHR ''a'' CHR ''z''],
      plus [CSpace],
      Atom [CRange CHR ''A'' CHR ''Z''], Rep 2 None [CRange CHR ''a'' CHR ''z''], WordB],
     ignoreCase = False\<rparr>"

text \<open>\<^verbatim>\<open>/\b(MRN|mrn|#|medical\s*record)\s*:?\s*\d{6,}/gi\<close>\<close>

definition mrn_re :: regexp where
  "mrn_re = \<lparr>source = seq
     [WordB,
      alts [lit ''MRN'', lit ''mrn'', lit ''#'', seq [lit ''medical'', star [CSpace], lit ''record'']],
      star [CSpace], opt [CChar CHR '':''], star [CSpace], Rep 6 None [CDigit]],
     ignoreCase = True\<rparr>"

text \<open>\<^verbatim>\<open>/\b(DOB|dob|born|birth|birthday)\s*:?\s*\d{1,2}[\/\-]\d{1,2}[\/\-]\d{2,4}/gi\<close>\<close>

definition dob_re :: regexp where
  "dob_re = \<lparr>source = seq
     [WordB,
      alts [lit ''DOB'', lit ''dob'', lit ''born'', lit ''birth'', lit ''birthday''],
      star [CSpace], opt [CChar CHR '':''], star [CSpace],
      Rep 1 (Some 2) [CDigit], Atom [CChar CHR ''/'', CChar CHR ''-''],
      Rep 1 (Some 2) [CDigit], Atom [CChar CHR ''/'', CChar CHR ''-''],
      Rep 2 (Some 4) [CDigit]],
     ignoreCase = True\<rparr>"

text \<open>\<^verbatim>\<open>/\b\d{3}[-\s]?\d{2}[-\s]?\d{4}\b/g\<close>\<close>

definition ssn_re :: regexp where
  "ssn_re = \<lparr>source = seq
     [WordB, Rep 3 (Some 3) [CDigit], opt [CChar CHR ''-'', CSpace],
      Rep 2 (Some 2) [CDigit], opt [CChar CHR ''-'', CSpace],
      Rep 4 (Some 4) [CDigit], WordB],
     ignoreCase = False\<rparr>"

text \<open>\<^verbatim>\<open>/\b\d{3}[-\.\s]?\d{3}[-\.\s]?\d{4}\b/g\<close>\<close>

definition phone_re :: regexp where
  "phone_re = \<lparr>source = seq
     [WordB, Rep 3 (Some 3) [CDigit], opt [CChar CHR ''-'', CChar CHR ''.'', CSpace],
      Rep 3 (Some 3) [CDigit], opt [CChar CHR ''-'', CChar CHR ''.'', CSpace],
      Rep 4 (Some 4) [CDigit], WordB],
     ignoreCase = False\<rparr>"

text \<open>
  \<^verbatim>\<open>/\b[a-zA-Z0-9._%+-]+@(?!(hospital|healthsystem|medical|nicu))[a-zA-Z0-9.-]+\.[a-zA-Z]{2,}\b/gi\<close>
\<close>

definition institutional :: "string list" where
  "institutional = [''hospital'', ''healthsystem'', ''medical'', ''nicu'']"

definition local_part :: cclass where
  "local_part = alnum @ [CChar CHR ''.'', CChar CHR ''_'', CChar CHR ''%'', CChar CHR ''+'', CChar CHR ''-'']"

definition personalEmail_re :: regexp where
  "personalEmail_re = \<lparr>source = seq
     [WordB, plus local_part, Atom [CChar CHR ''@''],
      NegLook (alts (map lit institutional)),
      plus (alnum @ [CChar CHR ''.'', CChar CHR ''-'']), Atom [CChar CHR ''.''],
      Rep 2 None letters, WordB],
     ignoreCase = True\<rparr>"

text \<open>
  \<^verbatim>\<open>/\b(January|February|March|April|May|June|July|August|September|October|November|December)\s+\d{1,2},?\s+\d{4}\b/gi\<close>
\<close>

definition months :: "string list" where
  "months = [''January'', ''February'', ''March'', ''April'', ''May'', ''June'', ''July'',
     ''August'', ''September'', ''October'', ''November'', ''December'']"

definition exactDate_re :: regexp where
  "exactDate_re = \<lparr>source = seq
     [WordB, alts (map lit months), plus [CSpace], Rep 1 (Some 2) [CDigit],
      opt [CChar CHR '',''], plus [CSpace], Rep 4 (Some 4) [CDigit], WordB],
     ignoreCase = True\<rparr>"

text \<open>
  \<^verbatim>\<open>/\b\d+\s+[A-Z][a-z]+\s+(Street|St|Avenue|Ave|Road|Rd|Boulevard|Blvd|Lane|Ln|Drive|Dr|Court|Ct|Way)\b/gi\<close>
\<close>

definition street_types :: "string list" where
  "street_types = [''Street'', ''St'', ''Avenue'', ''Ave'', ''Road'', ''Rd'', ''Boulevard'',
     ''Blvd'', ''Lane'', ''Ln'', ''Drive'', ''Dr'', ''Court'', ''Ct'', ''Way'']"

definition address_re :: regexp where
  "address_re = \<lparr>source = seq
     [WordB, plus [CDigit], plus [CSpace],
      Atom [CRange CHR ''A'' CHR ''Z''], plus [CRange CHR ''a'' CHR ''z''], plus [CSpace],
      alts (map lit street_types), WordB],
     ignoreCase = True\<rparr>"

definition PHI_PATTERNS :: "(detector \<times> regexp) list" where
  "PHI_PATTERNS =
     [(fullName, fullName_re), (mrn, mrn_re), (dob, dob_re), (ssn, ssn_re), (phone, phone_re),
      (personalEmail, personalEmail_re), (exactDate, exactDate_re), (address, address_re)]"

section \<open>detectPHI\<close>

record violation =
  type :: detector
  count :: nat
  sample :: string

text \<open>The \<^verbatim>\<open>lastIndex\<close> of each pattern object of \<^verbatim>\<open>PHI_PATTERNS\<close>.\<close>

type_synonym re_state = "detector \<Rightarrow> nat"

text \<open>The filter on matches of the name pattern: medical terms that look like names.\<close>

definition name_filter :: "string \<Rightarrow> bool" where
  "name_filter m =
     (let lower = toLowerCase m
      in \<not> includes_str lower ''room'' \<and> \<not> includes_str lower ''blood''
         \<and> \<not> includes_str lower ''heart'' \<and> \<not> startsWith lower ''baby '')"

text \<open>
  The body of the loop over \<^verbatim>\<open>Object.entries(PHI_PATTERNS)\<close> for one pattern. The
  first element is read from a list that is not empty there: \<open>filtered\<close> under its length
  test, and the array of \<^verbatim>\<open>match\<close>, which is \<^verbatim>\<open>null\<close> rather than empty
  (\<open>match_loop_nonempty\<close> below).
\<close>

definition report :: "detector \<Rightarrow> string list option \<Rightarrow> violation list" where
  "report ty matches =
     (case matches of
        None \<Rightarrow> []
      | Some m \<Rightarrow>
          if ty = fullName
          then (let filtered = filter name_filter m
                in if length filtered > 0
                   then [\<lparr>type = ty, count = length filtered,
                          sample = substring (hd filtered) 0 15 @ ''...''\<rparr>]
                   else [])
          else [\<lparr>type = ty, count = length m, sample = substring (hd m) 0 20 @ ''...''\<rparr>])"

fun detect_loop :: "re_state \<Rightarrow> string \<Rightarrow> (detector \<times> regexp) list \<Rightarrow> violation list \<times> re_state" where
  "detect_loop st text [] = ([], st)"
| "detect_loop st text ((ty, pattern) # ps) =
     (let (matches, li) = string_match pattern (st ty) text;
          (violations, st') = detect_loop (st(ty := li)) text ps
      in (report ty matches @ violations, st'))"

definition detectPHI :: "re_state \<Rightarrow> jsval \<Rightarrow> violation list option \<times> re_state" where
  "detectPHI st text =
     (case text of
        JStr t \<Rightarrow>
          if t = [] then (None, st)
          else (let (violations, st') = detect_loop st t PHI_PATTERNS
                in (if length violations > 0 then Some violations else None, st'))
      | _ \<Rightarrow> (None, st))"

section \<open>scanForPHI\<close>

record finding =
  field :: string
  violations :: "violation list"

text \<open>\<^verbatim>\<open>typeof v === 'object'\<close>: objects, arrays and \<^verbatim>\<open>null\<close>.\<close>

definition typeof_object :: "jsval \<Rightarrow> bool" where
  "typeof_object v = (case v of JNull \<Rightarrow> True | JArr _ \<Rightarrow> True | JObj _ \<Rightarrow> True | _ \<Rightarrow> False)"

definition skipped :: "string \<Rightarrow> bool" where
  "skipped key = (key = ''createdAt'' \<or> key = ''updatedAt'' \<or> key = ''_'')"

definition child_path :: "string \<Rightarrow> string \<Rightarrow> string" where
  "child_path path key = (if path \<noteq> [] then path @ ''.'' @ key else key)"

definition index_path :: "string \<Rightarrow> nat \<Rightarrow> string" where
  "index_path currentPath index = currentPath @ ''['' @ show_nat index @ '']''"

text \<open>What a string value at \<open>path\<close> adds to the findings.\<close>

definition scan_string :: "re_state \<Rightarrow> string \<Rightarrow> string \<Rightarrow> finding list \<times> re_state" where
  "scan_string st s path =
     (case detectPHI st (JStr s) of
        (None, st') \<Rightarrow> ([], st')
      | (Some phi, st') \<Rightarrow> ([\<lparr>field = path, violations = phi\<rparr>], st'))"

text \<open>
  \<open>scanForPHI\<close> is the function of the source. \<open>scan_entries\<close> is its loop over the entries
  of an object and \<open>scan_elements\<close> the same loop over the entries of an array (the keys
  are the indices); \<open>scan_entry\<close> is the loop body and \<open>scan_items\<close> the
  \<^verbatim>\<open>forEach\<close> over the items of an array-valued field. Each returns the findings it
  pushes, in order.
\<close>

function (sequential) scanForPHI :: "re_state \<Rightarrow> jsval \<Rightarrow> string \<Rightarrow> finding list \<times> re_state"
  and scan_entries :: "re_state \<Rightarrow> (string \<times> jsval) list \<Rightarrow> string \<Rightarrow> finding list \<times> re_state"
  and scan_elements :: "re_state \<Rightarrow> jsval list \<Rightarrow> nat \<Rightarrow> string \<Rightarrow> finding list \<times> re_state"
  and scan_entry :: "re_state \<Rightarrow> string \<Rightarrow> jsval \<Rightarrow> string \<Rightarrow> finding list \<times> re_state"
  and scan_items :: "re_state \<Rightarrow> jsval list \<Rightarrow> nat \<Rightarrow> string \<Rightarrow> finding list \<times> re_state"
where
  "scanForPHI st (JObj es) path = scan_entries st es path"
| "scanForPHI st (JArr xs) path = scan_elements st xs 0 path"
| "scanForPHI st JNull path = ([], st)"
| "scanForPHI st (JBool b) path = ([], st)"
| "scanForPHI st (JNum n) path = ([], st)"
| "scanForPHI st (JStr s) path = ([], st)"
| "scan_entries st [] path = ([], st)"
| "scan_entries st ((key, v) # es) path =
     (case scan_entry st key v path of (f1, st1) \<Rightarrow>
        (case scan_entries st1 es path of (f2, st2) \<Rightarrow> (f1 @ f2, st2)))"
| "scan_elements st [] i path = ([], st)"
| "scan_elements st (v # xs) i path =
     (case scan_entry st (show_nat i) v path of (f1, st1) \<Rightarrow>
        (case scan_elements st1 xs (i + 1) path of (f2, st2) \<Rightarrow> (f1 @ f2, st2)))"
| "scan_entry st key v path =
     (let currentPath = child_path path key
      in if skipped key then ([], st)
         else case v of
                JStr s \<Rightarrow> scan_string st s currentPath
              | JArr items \<Rightarrow> scan_items st items 0 currentPath
              | JObj es \<Rightarrow> scanForPHI st (JObj es) currentPath
              | _ \<Rightarrow> ([], st))"
| "scan_items st [] index currentPath = ([], st)"
| "scan_items st (item # items) index currentPath =
     (case (if typeof_object item then scanForPHI st item (index_path currentPath index)
             else case item of
                    JStr s \<Rightarrow> scan_string st s (index_path currentPath index)
                  | _ \<Rightarrow> ([], st)) of (f1, st1) \<Rightarrow>
         (case scan_items st1 items (index + 1) currentPath of (f2, st2) \<Rightarrow> (f1 @ f2, st2)))"
  by pat_completeness auto
termination
  apply (relation "measure (\<lambda>x. case x of
      Inl (Inl (st, v, path)) \<Rightarrow> 2 * size v
    | Inl (Inr (st, es, path)) \<Rightarrow> 2 * size_list (size_prod (\<lambda>k. 0) size) es + 1
    | Inr (Inl (st, xs, i, path)) \<Rightarrow> 2 * size_list size xs + 1
    | Inr (Inr (Inl (st, key, v, path))) \<Rightarrow> 2 * size v + 1
    | Inr (Inr (Inr (st, items, index, path))) \<Rightarrow> 2 * size_list size items + 1)")
  by simp_all

declare scan_entry.simps [simp del]

text \<open>The callback of the \<^verbatim>\<open>forEach\<close>, for an item whose path is \<open>p\<close>.\<close>

definition scan_item :: "re_state \<Rightarrow> jsval \<Rightarrow> string \<Rightarrow> finding list \<times> re_state" where
  "scan_item st item p =
     (if typeof_object item then scanForPHI st item p
      else case item of JStr s \<Rightarrow> scan_string st s p | _ \<Rightarrow> ([], st))"

section \<open>Firestore and the trigger handlers\<close>

text \<open>
  The path parameters of the trigger
  \<^verbatim>\<open>artifacts/{appId}/users/{userId}/nicu_shifts/{shiftId}/babies/{babyId}\<close>.
\<close>

record params =
  appId :: string
  userId :: string
  shiftId :: string
  babyId :: string

definition shift_path :: "string \<Rightarrow> string \<Rightarrow> string \<Rightarrow> string" where
  "shift_path app user shift =
     ''artifacts/'' @ app @ ''/users/'' @ user @ ''/nicu_shifts/'' @ shift"

definition baby_path :: "params \<Rightarrow> string" where
  "baby_path c = shift_path (appId c) (userId c) (shiftId c) @ ''/babies/'' @ babyId c"

datatype field_value = serverTimestamp

text \<open>
  A document of the \<^verbatim>\<open>phi_violations\<close> collection; \<open>subject\<close> holds its four
  identifier fields.
\<close>

record audit_entry =
  subject :: params
  documentType :: string
  timestamp :: field_value
  findings :: "finding list"
  action :: string
  severity :: string

text \<open>
  The writes the module issues: \<^verbatim>\<open>collection('phi_violations').add(entry)\<close>,
  \<^verbatim>\<open>ref.delete()\<close>, \<^verbatim>\<open>ref.set(data, {merge})\<close> and \<^verbatim>\<open>ref.update(fields)\<close>.
\<close>

datatype fs_write =
    AddViolation audit_entry
  | DeleteDoc string
  | SetDoc string jsval bool
  | UpdateDoc string "(string \<times> jsval) list"

text \<open>
  The state the handlers run in: the documents by path, the audit collection, the writes
  issued so far (in the order of issue), and the \<^verbatim>\<open>lastIndex\<close> of the module's patterns.
\<close>

record world =
  docs :: "string \<rightharpoonup> jsval"
  phi_violations :: "audit_entry list"
  issued :: "fs_write list"
  lastIndex :: re_state

datatype https_code = unauthenticated | invalid_argument | not_found | internal

text \<open>
  What can be thrown: an \<^verbatim>\<open>HttpsError(code, message, details)\<close>, or the error of a
  rejected store call, with its message.
\<close>

datatype js_error =
    HttpsError https_code string "string option"
  | StoreError string

fun message :: "js_error \<Rightarrow> string" where
  "message (HttpsError c m d) = m"
| "message (StoreError m) = m"

text \<open>
  Fields of the written value replace the stored fields of the same name; the other stored
  fields stay. (Only \<^verbatim>\<open>merge: false\<close> occurs in the module.)
\<close>

definition merge_fields :: "(string \<times> jsval) list \<Rightarrow> jsval option \<Rightarrow> jsval" where
  "merge_fields new old =
     (case old of
        Some (JObj es) \<Rightarrow> JObj (filter (\<lambda>(k, v). k \<notin> fst ` set new) es @ new)
      | _ \<Rightarrow> JObj new)"

fun apply_write :: "fs_write \<Rightarrow> world \<Rightarrow> world" where
  "apply_write (AddViolation e) w = w\<lparr>phi_violations := phi_violations w @ [e]\<rparr>"
| "apply_write (DeleteDoc p) w = w\<lparr>docs := (docs w)(p := None)\<rparr>"
| "apply_write (SetDoc p v merge) w =
     w\<lparr>docs := (docs w)(p \<mapsto> (case v of
                                   JObj new \<Rightarrow> if merge then merge_fields new (docs w p) else v
                                 | _ \<Rightarrow> v))\<rparr>"
| "apply_write (UpdateDoc p upd) w = w\<lparr>docs := (docs w)(p \<mapsto> merge_fields upd (docs w p))\<rparr>"

text \<open>
  An awaited store call. \<open>commits\<close> says which writes the store accepts; a rejected
  write throws and changes no document. Updating a document that does not exist is
  rejected.
\<close>

definition issue :: "(fs_write \<Rightarrow> bool) \<Rightarrow> fs_write \<Rightarrow> world \<Rightarrow> (js_error + unit) \<times> world" where
  "issue commits wr w =
     (let w' = w\<lparr>issued := issued w @ [wr]\<rparr>;
          missing = (case wr of UpdateDoc p upd \<Rightarrow> docs w p = None | _ \<Rightarrow> False)
      in if commits wr \<and> \<not> missing then (Inr (), apply_write wr w')
         else (Inl (StoreError ''write rejected''), w'))"

record snapshot =
  ref :: string
  data :: jsval

record change =
  before :: snapshot
  after :: snapshot

text \<open>
  The value a handler returns: \<^verbatim>\<open>{status: 'blocked', reason, findings}\<close>,
  \<^verbatim>\<open>{status: 'rolled_back', reason, findings}\<close> (the findings are the field paths) or
  \<^verbatim>\<open>{status: 'approved'}\<close>.
\<close>

datatype response =
    blocked string "string list"
  | rolled_back string "string list"
  | approved

definition validateBabyData ::
  "(fs_write \<Rightarrow> bool) \<Rightarrow> snapshot \<Rightarrow> params \<Rightarrow> world \<Rightarrow> (js_error + response) \<times> world" where
  "validateBabyData commits snap context w =
     (case scanForPHI (lastIndex w) (data snap) [] of (phiFindings, st) \<Rightarrow>
        let w1 = w\<lparr>lastIndex := st\<rparr>
        in if length phiFindings > 0
           then (case issue commits
                        (AddViolation \<lparr>subject = context, documentType = ''baby'',
                           timestamp = serverTimestamp, findings = phiFindings,
                           action = ''deleted'', severity = ''high''\<rparr>) w1 of
                   (Inl e, w2) \<Rightarrow> (Inl e, w2)
                 | (Inr u, w2) \<Rightarrow>
                     (case issue commits (DeleteDoc (ref snap)) w2 of
                        (Inl e, w3) \<Rightarrow> (Inl e, w3)
                      | (Inr u', w3) \<Rightarrow>
                          (Inr (blocked ''PHI detected'' (map field phiFindings)), w3)))
           else (Inr approved, w1))"

definition validateBabyDataUpdate ::
  "(fs_write \<Rightarrow> bool) \<Rightarrow> change \<Rightarrow> params \<Rightarrow> world \<Rightarrow> (js_error + response) \<times> world" where
  "validateBabyDataUpdate commits chg context w =
     (let newData = data (after chg); oldData = data (before chg)
      in case scanForPHI (lastIndex w) newData [] of (phiFindings, st) \<Rightarrow>
        let w1 = w\<lparr>lastIndex := st\<rparr>
        in if length phiFindings > 0
           then (case issue commits
                        (AddViolation \<lparr>subject = context, documentType = ''baby'',
                           timestamp = serverTimestamp, findings = phiFindings,
                           action = ''rollback'', severity = ''high''\<rparr>) w1 of
                   (Inl e, w2) \<Rightarrow> (Inl e, w2)
                 | (Inr u, w2) \<Rightarrow>
                     (case issue commits (SetDoc (ref (after chg)) oldData False) w2 of
                        (Inl e, w3) \<Rightarrow> (Inl e, w3)
                      | (Inr u', w3) \<Rightarrow>
                          (Inr (rolled_back ''PHI detected in update'' (map field phiFindings)), w3)))
           else (Inr approved, w1))"

text \<open>
  The triggers. A client write to a baby document commits first; then the handler bound
  to the path runs on the committed value: \<open>onCreate\<close> for a document that did not
  exist, \<open>onUpdate\<close> for one that did, with its value before the write.
\<close>

definition onCreate ::
  "(fs_write \<Rightarrow> bool) \<Rightarrow> params \<Rightarrow> jsval \<Rightarrow> world \<Rightarrow> (js_error + response) \<times> world" where
  "onCreate commits context v w =
     validateBabyData commits \<lparr>ref = baby_path context, data = v\<rparr> context
       (w\<lparr>docs := (docs w)(baby_path context \<mapsto> v)\<rparr>)"

definition onUpdate ::
  "(fs_write \<Rightarrow> bool) \<Rightarrow> params \<Rightarrow> jsval \<Rightarrow> jsval \<Rightarrow> world \<Rightarrow> (js_error + response) \<times> world" where
  "onUpdate commits context old new w =
     validateBabyDataUpdate commits
       \<lparr>before = \<lparr>ref = baby_path context, data = old\<rparr>,
        after = \<lparr>ref = baby_path context, data = new\<rparr>\<rparr> context
       (w\<lparr>docs := (docs w)(baby_path context \<mapsto> new)\<rparr>)"

section \<open>generateShiftSummary\<close>

record auth =
  uid :: string

text \<open>The \<^verbatim>\<open>data\<close> of a call: the two identifiers, each a string or absent.\<close>

record summary_request =
  req_appId :: "string option"
  req_shiftId :: "string option"

record summary_result =
  summary :: string
  generated :: string
  babyCount :: nat

text \<open>
  What the callable takes from its surroundings: whether a read of a path succeeds, and
  the rest of the \<^verbatim>\<open>try\<close> block once the shift document is found (it reads the babies,
  builds the text with the clock and the locale, and caches it on the shift document).
\<close>

record summary_env =
  readable :: "string \<Rightarrow> bool"
  summarize :: "string \<Rightarrow> jsval \<Rightarrow> world \<Rightarrow> (js_error + summary_result) \<times> world"

definition falsy :: "string option \<Rightarrow> bool" where
  "falsy x = (case x of None \<Rightarrow> True | Some s \<Rightarrow> s = [])"

definition fs_get :: "summary_env \<Rightarrow> world \<Rightarrow> string \<Rightarrow> js_error + jsval option" where
  "fs_get env w p = (if readable env p then Inr (docs w p) else Inl (StoreError ''read rejected''))"

text \<open>The body of the \<^verbatim>\<open>try\<close> block.\<close>

definition summary_try ::
  "summary_env \<Rightarrow> string \<Rightarrow> string \<Rightarrow> string \<Rightarrow> world \<Rightarrow> (js_error + summary_result) \<times> world" where
  "summary_try env app shift user w =
     (let shiftRef = shift_path app user shift
      in case fs_get env w shiftRef of
           Inl e \<Rightarrow> (Inl e, w)
         | Inr None \<Rightarrow> (Inl (HttpsError not_found ''Shift not found'' None), w)
         | Inr (Some shiftDoc) \<Rightarrow> summarize env shiftRef shiftDoc w)"

definition generateShiftSummary ::
  "summary_env \<Rightarrow> summary_request \<Rightarrow> auth option \<Rightarrow> world \<Rightarrow> (js_error + summary_result) \<times> world" where
  "generateShiftSummary env req context_auth w =
     (case context_auth of
        None \<Rightarrow>
          (Inl (HttpsError unauthenticated ''User must be authenticated to generate summaries'' None), w)
      | Some a \<Rightarrow>
          (case (req_appId req, req_shiftId req) of
             (Some app, Some shift) \<Rightarrow>
               if falsy (Some app) \<or> falsy (Some shift)
               then (Inl (HttpsError invalid_argument ''appId and shiftId are required'' None), w)
               else (case summary_try env app shift (uid a) w of
                       (Inl error, w') \<Rightarrow>
                         (Inl (HttpsError internal ''Failed to generate shift summary''
                                 (Some (message error))), w')
                     | (Inr res, w') \<Rightarrow> (Inr res, w'))
           | _ \<Rightarrow> (Inl (HttpsError invalid_argument ''appId and shiftId are required'' None), w)))"

section \<open>Reference notions for the scanner\<close>

text \<open>
  A record with every field named \<^verbatim>\<open>createdAt\<close>, \<^verbatim>\<open>updatedAt\<close> or \<^verbatim>\<open>_\<close> removed, at
  every depth. Two records that differ only in such fields have the same image.
\<close>

fun strip_skipped :: "jsval \<Rightarrow> jsval"
  and strip_entries :: "(string \<times> jsval) list \<Rightarrow> (string \<times> jsval) list"
  and strip_items :: "jsval list \<Rightarrow> jsval list"
where
  "strip_skipped (JObj es) = JObj (strip_entries es)"
| "strip_skipped (JArr xs) = JArr (strip_items xs)"
| "strip_skipped JNull = JNull"
| "strip_skipped (JBool b) = JBool b"
| "strip_skipped (JNum n) = JNum n"
| "strip_skipped (JStr s) = JStr s"
| "strip_entries [] = []"
| "strip_entries ((k, v) # es) =
     (if skipped k then strip_entries es else (k, strip_skipped v) # strip_entries es)"
| "strip_items [] = []"
| "strip_items (x # xs) = strip_skipped x # strip_items xs"

text \<open>
  A value as Firestore stores it: no array is an element of an array.
\<close>

fun storable :: "jsval \<Rightarrow> bool"
  and storable_entries :: "(string \<times> jsval) list \<Rightarrow> bool"
  and storable_items :: "jsval list \<Rightarrow> bool"
where
  "storable (JObj es) = storable_entries es"
| "storable (JArr xs) = storable_items xs"
| "storable JNull = True"
| "storable (JBool b) = True"
| "storable (JNum n) = True"
| "storable (JStr s) = True"
| "storable_entries [] = True"
| "storable_entries ((k, v) # es) = (storable v \<and> storable_entries es)"
| "storable_items [] = True"
| "storable_items (x # xs) =
     ((case x of JArr ys \<Rightarrow> False | _ \<Rightarrow> True) \<and> storable x \<and> storable_items xs)"

text \<open>
  The traversal as the specification words it: depth first over the fields in their
  order; a string value is a field to scan; a nested record is entered with the path
  extended by the field name, a list with the path extended by the index of each element;
  numbers, booleans and null are passed over. \<open>string_fields\<close> lists the string fields
  reached, each once, with its path and its text; the fields the scanner skips by name
  are not entered.
\<close>

fun string_fields :: "jsval \<Rightarrow> string \<Rightarrow> (string \<times> string) list"
  and entry_fields :: "(string \<times> jsval) list \<Rightarrow> string \<Rightarrow> (string \<times> string) list"
  and item_fields :: "jsval list \<Rightarrow> nat \<Rightarrow> string \<Rightarrow> (string \<times> string) list"
where
  "string_fields (JStr s) path = [(path, s)]"
| "string_fields (JObj es) path = entry_fields es path"
| "string_fields (JArr xs) path = item_fields xs 0 path"
| "string_fields JNull path = []"
| "string_fields (JBool b) path = []"
| "string_fields (JNum n) path = []"
| "entry_fields [] path = []"
| "entry_fields ((k, v) # es) path =
     (if skipped k then [] else string_fields v (child_path path k)) @ entry_fields es path"
| "item_fields [] i path = []"
| "item_fields (x # xs) i path = string_fields x (index_path path i) @ item_fields xs (i + 1) path"

text \<open>The findings of one call of detectPHI on each listed field, in order.\<close>

definition hits :: "re_state \<Rightarrow> (string \<times> string) list \<Rightarrow> finding list" where
  "hits st fs = concat (map (\<lambda>(p, s). fst (scan_string st s p)) fs)"

section \<open>Predicates of the statements below\<close>

text \<open>The audit entry a handler writes for the findings \<open>fs\<close> and the action \<open>act\<close>.\<close>

definition audit :: "params \<Rightarrow> finding list \<Rightarrow> string \<Rightarrow> audit_entry" where
  "audit c fs act = \<lparr>subject = c, documentType = ''baby'', timestamp = serverTimestamp,
     findings = fs, action = act, severity = ''high''\<rparr>"


definition is_audit :: "fs_write \<Rightarrow> bool" where
  "is_audit wr = (case wr of AddViolation e \<Rightarrow> True | _ \<Rightarrow> False)"

definition is_corrective :: "fs_write \<Rightarrow> bool" where
  "is_corrective wr = (case wr of DeleteDoc p \<Rightarrow> True | SetDoc p v m \<Rightarrow> True | _ \<Rightarrow> False)"

definition audit_after_corrective :: "fs_write list \<Rightarrow> bool" where
  "audit_after_corrective ws = list_all (\<lambda>wr. \<not> is_audit wr) (takeWhile (\<lambda>wr. \<not> is_corrective wr) ws)"

section \<open>Example data\<close>

text \<open>
  A module just loaded over an empty store, one baby document path, and three document
  values: two with a finding each and one with none.
\<close>

definition fresh_world :: world where
  "fresh_world = \<lparr>docs = Map.empty, phi_violations = [], issued = [], lastIndex = (\<lambda>d. 0)\<rparr>"

definition baby1 :: params where
  "baby1 = \<lparr>appId = ''nicu'', userId = ''nurse1'', shiftId = ''shift1'', babyId = ''baby1''\<rparr>"

definition phone_note :: jsval where
  "phone_note = JObj [(''note'', JStr ''555-123-4567'')]"


definition clean_note :: jsval where
  "clean_note = JObj [(''note'', JStr ''feeding well''), (''weight'', JNum 1840)]"

definition phone_findings :: "finding list" where
  "phone_findings = [\<lparr>field = ''note'',
     violations = [\<lparr>type = phone, count = 1, sample = ''555-123-4567...''\<rparr>]\<rparr>]"


text \<open>
  Two records that differ only in fields the scanner skips, and a record with a string
  three levels down in a list of records of lists.
\<close>

definition hidden_a :: jsval where
  "hidden_a = JObj [(''_'', JStr ''555-123-4567''), (''createdAt'', JStr ''test@gmail.com''),
     (''logs'', JArr [JObj [(''updatedAt'', JStr ''Jane Smith''), (''note'', JStr ''555-123-4567'')]])]"

definition hidden_b :: jsval where
  "hidden_b = JObj [(''_'', JNum 0),
     (''logs'', JArr [JObj [(''updatedAt'', JNull), (''note'', JStr ''555-123-4567'')]])]"

definition nested_doc :: jsval where
  "nested_doc = JObj [(''weight'', JNum 1840),
     (''logs'', JArr [JNull, JObj [(''time'', JStr ''08:00''),
                                   (''notes'', JArr [JStr ''fed'', JStr ''555-123-4567''])]])]"


text \<open>
  A text with two personal addresses, the first of them longer than 20 code units, and a
  text with three name-like matches, the first of which the name filter drops.
\<close>

definition two_emails :: string where
  "two_emails = ''nurse.katie@gmail.com x@aol.com''"

definition three_names :: string where
  "three_names = ''Room Two, Jane Doe, Amy Poe''"

section \<open>Properties of the matcher and the scanner\<close>

text \<open>
  \<^verbatim>\<open>match\<close> leaves \<^verbatim>\<open>lastIndex\<close> at 0 and returns an array only when it is not empty;
  its result does not depend on the \<^verbatim>\<open>lastIndex\<close> it finds.
\<close>

lemma match_loop_snd: "snd (match_loop re s i A) = 0"
proof (induction re s i A rule: match_loop.induct)
  case (1 re s lastIndex A)
  show ?case
  proof (cases "exec_scan re s lastIndex")
    case None
    then show ?thesis by (simp add: match_loop.simps [of re s lastIndex A])
  next
    case (Some be)
    obtain b e where be: "be = (b, e)" by (cases be)
    from "1.IH" [OF Some be [symmetric] refl] Some be show ?thesis
      by (simp add: match_loop.simps [of re s lastIndex A] Let_def)
  qed
qed

lemma match_loop_nonempty: "match_loop re s i A = (Some B, li) \<Longrightarrow> B \<noteq> []"
proof (induction re s i A rule: match_loop.induct)
  case (1 re s lastIndex A)
  show ?case
  proof (cases "exec_scan re s lastIndex")
    case None
    with "1.prems" show ?thesis
      by (auto simp: match_loop.simps [of re s lastIndex A] split: if_splits)
  next
    case (Some be)
    obtain b e where be: "be = (b, e)" by (cases be)
    from "1.prems" Some be
    have "match_loop re s (if substring s b e = [] then e + 1 else e) (A @ [substring s b e]) = (Some B, li)"
      by (simp add: match_loop.simps [of re s lastIndex A] Let_def)
    from "1.IH" [OF Some be [symmetric] refl this] show ?thesis .
  qed
qed

lemma string_match_lastIndex: "string_match re li s = string_match re li' s"
  by (simp add: string_match_def)

lemma string_match_snd: "snd (string_match re li s) = 0"
  by (simp add: string_match_def match_loop_snd)

lemma detect_loop_fst:
  "fst (detect_loop st text ps) = concat (map (\<lambda>(ty, re). report ty (fst (string_match re 0 text))) ps)"
proof (induction ps arbitrary: st)
  case Nil
  then show ?case by simp
next
  case (Cons a ps)
  obtain ty re where a: "a = (ty, re)" by (cases a)
  have sm: "string_match re (st ty) text = string_match re 0 text"
    by (rule string_match_lastIndex)
  obtain m li where m: "string_match re 0 text = (m, li)" by (cases "string_match re 0 text")
  obtain vs st2 where r: "detect_loop (st(ty := li)) text ps = (vs, st2)"
    by (cases "detect_loop (st(ty := li)) text ps")
  have "fst (detect_loop (st(ty := li)) text ps)
          = concat (map (\<lambda>(ty, re). report ty (fst (string_match re 0 text))) ps)"
    by (rule Cons.IH)
  then have "vs = concat (map (\<lambda>(ty, re). report ty (fst (string_match re 0 text))) ps)"
    unfolding r fst_conv .
  then show ?case
    by (simp add: a sm m r)
qed

lemma detectPHI_fst: "fst (detectPHI st v) = fst (detectPHI st' v)"
  proof (cases v)
  case (JStr t)
  obtain vs st2 where a: "detect_loop st t PHI_PATTERNS = (vs, st2)" by (cases "detect_loop st t PHI_PATTERNS")
  obtain vs' st2' where b: "detect_loop st' t PHI_PATTERNS = (vs', st2')" by (cases "detect_loop st' t PHI_PATTERNS")
  from a b detect_loop_fst [of st t PHI_PATTERNS] detect_loop_fst [of st' t PHI_PATTERNS]
  have "vs = vs'" by simp
  with a b JStr show ?thesis by (simp add: detectPHI_def)
qed (simp_all add: detectPHI_def)

lemma scan_string_fst: "fst (scan_string st s p) = fst (scan_string st' s p)"
  using detectPHI_fst [of st "JStr s" st']
  by (auto simp: scan_string_def split: prod.splits option.splits)

lemma scan_entries_Cons_fst:
  "fst (scan_entries st ((k, v) # es) p)
     = fst (scan_entry st k v p) @ fst (scan_entries (snd (scan_entry st k v p)) es p)"
  by (simp split: prod.splits)

lemma scan_elements_Cons_fst:
  "fst (scan_elements st (v # xs) i p)
     = fst (scan_entry st (show_nat i) v p)
       @ fst (scan_elements (snd (scan_entry st (show_nat i) v p)) xs (i + 1) p)"
  by (simp split: prod.splits)

lemma scan_items_Cons_fst:
  "fst (scan_items st (item # items) i cp)
     = fst (scan_item st item (index_path cp i))
       @ fst (scan_items (snd (scan_item st item (index_path cp i))) items (i + 1) cp)"
  by (simp add: scan_item_def split: prod.splits)

lemma scan_fst_all:
  "(\<forall>st'. fst (scanForPHI st v p) = fst (scanForPHI st' v p))"
  "(\<forall>st'. fst (scan_entries st es p) = fst (scan_entries st' es p))"
  "(\<forall>st'. fst (scan_elements st xs i p) = fst (scan_elements st' xs i p))"
  "(\<forall>st'. fst (scan_entry st k v p) = fst (scan_entry st' k v p))"
  "(\<forall>st'. fst (scan_items st xs i p) = fst (scan_items st' xs i p))"
proof (induction st v p and st es p and st xs i p and st k v p and st xs i p
       rule: scanForPHI_scan_entries_scan_elements_scan_entry_scan_items.induct)
  case (8 st key v es path)
  have "\<forall>st'. fst (scan_entries (snd (scan_entry st key v path)) es path) = fst (scan_entries st' es path)"
    by (rule "8.IH"(2) [of "fst (scan_entry st key v path)"]) simp
  with "8.IH"(1) show ?case
    unfolding scan_entries_Cons_fst by metis
next
  case (10 st v xs i path)
  have "\<forall>st'. fst (scan_elements (snd (scan_entry st (show_nat i) v path)) xs (i + 1) path)
          = fst (scan_elements st' xs (i + 1) path)"
    by (rule "10.IH"(2) [of "fst (scan_entry st (show_nat i) v path)"]) simp
  with "10.IH"(1) show ?case
    unfolding scan_elements_Cons_fst by metis
next
  case (11 st key v path)
  show ?case
  proof (cases "skipped key")
    case True
    then show ?thesis by (simp add: scan_entry.simps)
  next
    case False
    show ?thesis
    proof (cases v)
      case (JStr s)
      with False show ?thesis using scan_string_fst by (simp add: scan_entry.simps Let_def)
    next
      case (JArr items)
      with False "11.IH"(1) [OF refl False JArr] show ?thesis by (simp add: scan_entry.simps Let_def)
    next
      case (JObj es)
      with False "11.IH"(2) [OF refl False JObj] show ?thesis by (simp add: scan_entry.simps Let_def)
    qed (use False in \<open>simp_all add: scan_entry.simps Let_def\<close>)
  qed
next
  case (13 st item items index currentPath)
  let ?p = "index_path currentPath index"
  have one: "\<forall>st'. fst (scan_item st item ?p) = fst (scan_item st' item ?p)"
  proof (cases "typeof_object item")
    case True
    with "13.IH"(1) show ?thesis by (simp add: scan_item_def)
  next
    case False
    then show ?thesis using scan_string_fst by (cases item) (simp_all add: scan_item_def)
  qed
  have "\<forall>st'. fst (scan_items (snd (scan_item st item ?p)) items (index + 1) currentPath)
          = fst (scan_items st' items (index + 1) currentPath)"
    by (rule "13.IH"(2) [of "fst (scan_item st item ?p)"]) (simp add: scan_item_def)
  with one show ?case
    unfolding scan_items_Cons_fst by metis
qed simp_all

lemma scanForPHI_fst: "fst (scanForPHI st v p) = fst (scanForPHI st' v p)"
  using scan_fst_all(1) by blast

lemma scan_entries_fst: "fst (scan_entries st es p) = fst (scan_entries st' es p)"
  using scan_fst_all(2) by blast

lemma scan_items_fst: "fst (scan_items st xs i p) = fst (scan_items st' xs i p)"
  using scan_fst_all(5) by blast

lemma scan_entries_append:
  "fst (scan_entries st (es1 @ es2) p) = fst (scan_entries st es1 p) @ fst (scan_entries st es2 p)"
proof (induction es1 arbitrary: st)
  case Nil
  then show ?case by simp
next
  case (Cons e es1)
  obtain k v where e: "e = (k, v)" by (cases e)
  let ?st1 = "snd (scan_entry st k v p)"
  have "fst (scan_entries ?st1 (es1 @ es2) p)
          = fst (scan_entries ?st1 es1 p) @ fst (scan_entries ?st1 es2 p)"
    by (rule Cons.IH)
  also have "fst (scan_entries ?st1 es2 p) = fst (scan_entries st es2 p)"
    by (rule scan_entries_fst)
  finally show ?case
    by (simp add: e scan_entries_Cons_fst del: scan_entries.simps)
qed

lemma scan_items_append:
  "fst (scan_items st (xs1 @ xs2) i cp)
     = fst (scan_items st xs1 i cp) @ fst (scan_items st xs2 (i + length xs1) cp)"
proof (induction xs1 arbitrary: st i)
  case Nil
  then show ?case by simp
next
  case (Cons x xs1)
  let ?st1 = "snd (scan_item st x (index_path cp i))"
  have "fst (scan_items ?st1 (xs1 @ xs2) (i + 1) cp)
          = fst (scan_items ?st1 xs1 (i + 1) cp) @ fst (scan_items ?st1 xs2 (i + 1 + length xs1) cp)"
    by (rule Cons.IH)
  also have "fst (scan_items ?st1 xs2 (i + 1 + length xs1) cp)
               = fst (scan_items st xs2 (i + length (x # xs1)) cp)"
    using scan_items_fst [of ?st1 xs2 "i + 1 + length xs1" cp st] by simp
  finally show ?case
    by (simp add: scan_items_Cons_fst del: scan_items.simps)
qed

lemma scan_entry_string:
  "\<not> skipped k \<Longrightarrow> scan_entry st k (JStr s) p = scan_string st s (child_path p k)"
  by (simp add: scan_entry.simps Let_def)

lemma scan_entry_array:
  "\<not> skipped k \<Longrightarrow> scan_entry st k (JArr xs) p = scan_items st xs 0 (child_path p k)"
  by (simp add: scan_entry.simps Let_def)

lemma scan_entry_object:
  "\<not> skipped k \<Longrightarrow> scan_entry st k (JObj es) p = scan_entries st es (child_path p k)"
  by (simp add: scan_entry.simps Let_def)

lemma scan_entry_skipped: "skipped k \<Longrightarrow> scan_entry st k v p = ([], st)"
  by (simp add: scan_entry.simps Let_def)

text \<open>Every finding holds the violations that detectPHI returned for some string.\<close>

lemma scan_string_detect:
  "f \<in> set (fst (scan_string st s p)) \<Longrightarrow> fst (detectPHI st (JStr s)) = Some (violations f)"
  by (auto simp: scan_string_def split: prod.splits option.splits)

lemma scan_findings_detect:
  "(\<forall>f \<in> set (fst (scanForPHI st v p)). \<exists>s st'. fst (detectPHI st' (JStr s)) = Some (violations f))"
  "(\<forall>f \<in> set (fst (scan_entries st es p)). \<exists>s st'. fst (detectPHI st' (JStr s)) = Some (violations f))"
  "(\<forall>f \<in> set (fst (scan_elements st xs i p)). \<exists>s st'. fst (detectPHI st' (JStr s)) = Some (violations f))"
  "(\<forall>f \<in> set (fst (scan_entry st k v p)). \<exists>s st'. fst (detectPHI st' (JStr s)) = Some (violations f))"
  "(\<forall>f \<in> set (fst (scan_items st xs i p)). \<exists>s st'. fst (detectPHI st' (JStr s)) = Some (violations f))"
proof (induction st v p and st es p and st xs i p and st k v p and st xs i p
       rule: scanForPHI_scan_entries_scan_elements_scan_entry_scan_items.induct)
  case (8 st key v es path)
  have "\<forall>f \<in> set (fst (scan_entries (snd (scan_entry st key v path)) es path)).
          \<exists>s st'. fst (detectPHI st' (JStr s)) = Some (violations f)"
    by (rule "8.IH"(2) [of "fst (scan_entry st key v path)"]) simp
  with "8.IH"(1) show ?case
    unfolding scan_entries_Cons_fst by auto
next
  case (10 st v xs i path)
  have "\<forall>f \<in> set (fst (scan_elements (snd (scan_entry st (show_nat i) v path)) xs (i + 1) path)).
          \<exists>s st'. fst (detectPHI st' (JStr s)) = Some (violations f)"
    by (rule "10.IH"(2) [of "fst (scan_entry st (show_nat i) v path)"]) simp
  with "10.IH"(1) show ?case
    unfolding scan_elements_Cons_fst by auto
next
  case (11 st key v path)
  show ?case
  proof (cases "skipped key")
    case True
    then show ?thesis by (simp add: scan_entry_skipped)
  next
    case False
    show ?thesis
    proof (cases v)
      case (JStr s)
      with False show ?thesis by (simp add: scan_entry_string) (blast dest: scan_string_detect)
    next
      case (JArr items)
      with False "11.IH"(1) [OF refl False JArr] show ?thesis by (simp add: scan_entry_array)
    next
      case (JObj es)
      with False "11.IH"(2) [OF refl False JObj] show ?thesis by (simp add: scan_entry_object)
    qed (use False in \<open>simp_all add: scan_entry.simps Let_def\<close>)
  qed
next
  case (13 st item items index currentPath)
  let ?p = "index_path currentPath index"
  have one: "\<forall>f \<in> set (fst (scan_item st item ?p)). \<exists>s st'. fst (detectPHI st' (JStr s)) = Some (violations f)"
  proof (cases "typeof_object item")
    case True
    with "13.IH"(1) show ?thesis by (simp add: scan_item_def)
  next
    case False
    then show ?thesis by (cases item) (simp_all add: scan_item_def, blast dest: scan_string_detect)
  qed
  have "\<forall>f \<in> set (fst (scan_items (snd (scan_item st item ?p)) items (index + 1) currentPath)).
          \<exists>s st'. fst (detectPHI st' (JStr s)) = Some (violations f)"
    by (rule "13.IH"(2) [of "fst (scan_item st item ?p)"]) (simp add: scan_item_def)
  with one show ?case
    unfolding scan_items_Cons_fst by auto
qed simp_all

lemma report_sample:
  "x \<in> set (report ty m) \<Longrightarrow>
     type x = ty \<and> length (sample x) \<le> 23 \<and> (ty = fullName \<longrightarrow> length (sample x) \<le> 18)
     \<and> (\<exists>pre. sample x = pre @ ''...'' \<and> length pre \<le> 20)"
  by (auto simp: report_def substring_def Let_def split: option.splits if_splits)

lemma detect_loop_sample:
  assumes "x \<in> set (fst (detect_loop st text ps))"
  shows "type x \<in> fst ` set ps \<and> length (sample x) \<le> 23
         \<and> (type x = fullName \<longrightarrow> length (sample x) \<le> 18)
         \<and> (\<exists>pre. sample x = pre @ ''...'' \<and> length pre \<le> 20)"
proof -
  from assms obtain ty re where "(ty, re) \<in> set ps" and "x \<in> set (report ty (fst (string_match re 0 text)))"
    unfolding detect_loop_fst by auto
  with report_sample [of x ty "fst (string_match re 0 text)"] show ?thesis
    by force
qed

lemma detectPHI_sample:
  assumes "fst (detectPHI st v) = Some vs" and "x \<in> set vs"
  shows "length (sample x) \<le> 23 \<and> (type x = fullName \<longrightarrow> length (sample x) \<le> 18)
         \<and> (\<exists>pre. sample x = pre @ ''...'' \<and> length pre \<le> 20)"
proof (cases v)
  case (JStr t)
  obtain ws st2 where a: "detect_loop st t PHI_PATTERNS = (ws, st2)" by (cases "detect_loop st t PHI_PATTERNS")
  with assms JStr have "x \<in> set (fst (detect_loop st t PHI_PATTERNS))"
    by (auto simp: detectPHI_def split: if_splits)
  from detect_loop_sample [OF this] show ?thesis by blast
qed (use assms in \<open>simp_all add: detectPHI_def\<close>)

lemma scan_elements_fst: "fst (scan_elements st xs i p) = fst (scan_elements st' xs i p)"
  using scan_fst_all(3) by blast

lemma scan_entries_Cons:
  "fst (scan_entries st ((k, v) # es) p) = fst (scan_entry st k v p) @ fst (scan_entries st es p)"
  using scan_entries_fst [of "snd (scan_entry st k v p)" es p st]
  by (simp add: scan_entries_Cons_fst del: scan_entries.simps)

lemma scan_elements_Cons:
  "fst (scan_elements st (v # xs) i p)
     = fst (scan_entry st (show_nat i) v p) @ fst (scan_elements st xs (i + 1) p)"
  using scan_elements_fst [of "snd (scan_entry st (show_nat i) v p)" xs "i + 1" p st]
  by (simp add: scan_elements_Cons_fst del: scan_elements.simps)

lemma scan_items_Cons:
  "fst (scan_items st (x # xs) i cp)
     = fst (scan_item st x (index_path cp i)) @ fst (scan_items st xs (i + 1) cp)"
  using scan_items_fst [of "snd (scan_item st x (index_path cp i))" xs "i + 1" cp st]
  by (simp add: scan_items_Cons_fst del: scan_items.simps)




lemma scan_entry_in_entries:
  "set (fst (scan_entry st k v p)) \<subseteq> set (fst (scan_entries st (es1 @ (k, v) # es2) p))"
  by (auto simp add: scan_entries_append scan_entries_Cons simp del: scan_entries.simps)

lemma scan_item_in_items:
  "set (fst (scan_item st x (index_path cp (i + length xs1))))
     \<subseteq> set (fst (scan_items st (xs1 @ x # xs2) i cp))"
  by (auto simp add: scan_items_append scan_items_Cons simp del: scan_items.simps)




text \<open>Skipped fields do not show in the findings.\<close>

lemma typeof_object_strip: "typeof_object (strip_skipped x) = typeof_object x"
  by (cases x) (simp_all add: typeof_object_def)

lemma strip_scan_all:
  "fst (scanForPHI st (strip_skipped v) p) = fst (scanForPHI st v p)"
  "fst (scan_entries st (strip_entries es) p) = fst (scan_entries st es p)"
  "fst (scan_elements st (strip_items xs) i p) = fst (scan_elements st xs i p)"
  "fst (scan_entry st k (strip_skipped v) p) = fst (scan_entry st k v p)"
  "fst (scan_items st (strip_items xs) i p) = fst (scan_items st xs i p)"
proof (induction st v p and st es p and st xs i p and st k v p and st xs i p
       rule: scanForPHI_scan_entries_scan_elements_scan_entry_scan_items.induct)
  case (8 st key v es path)
  have "fst (scan_entries (snd (scan_entry st key v path)) (strip_entries es) path)
          = fst (scan_entries (snd (scan_entry st key v path)) es path)"
    by (rule "8.IH"(2) [of "fst (scan_entry st key v path)"]) simp
  then have rest: "fst (scan_entries st (strip_entries es) path) = fst (scan_entries st es path)"
    using scan_entries_fst by metis
  show ?case
  proof (cases "skipped key")
    case True
    with rest show ?thesis by (simp add: scan_entries_Cons scan_entry_skipped del: scan_entries.simps)
  next
    case False
    with rest "8.IH"(1) show ?thesis by (simp add: scan_entries_Cons del: scan_entries.simps)
  qed
next
  case (10 st v xs i path)
  have "fst (scan_elements (snd (scan_entry st (show_nat i) v path)) (strip_items xs) (i + 1) path)
          = fst (scan_elements (snd (scan_entry st (show_nat i) v path)) xs (i + 1) path)"
    by (rule "10.IH"(2) [of "fst (scan_entry st (show_nat i) v path)"]) simp
  then have "fst (scan_elements st (strip_items xs) (i + 1) path) = fst (scan_elements st xs (i + 1) path)"
    using scan_elements_fst by metis
  with "10.IH"(1) show ?case by (simp add: scan_elements_Cons del: scan_elements.simps)
next
  case (11 st key v path)
  show ?case
  proof (cases "skipped key")
    case True
    then show ?thesis by (simp add: scan_entry_skipped)
  next
    case False
    show ?thesis
    proof (cases v)
      case (JArr items)
      with False "11.IH"(1) [OF refl False JArr] show ?thesis by (simp add: scan_entry_array)
    next
      case (JObj es)
      with False "11.IH"(2) [OF refl False JObj] show ?thesis by (simp add: scan_entry_object)
    qed simp_all
  qed
next
  case (13 st item items index currentPath)
  let ?p = "index_path currentPath index"
  have one: "fst (scan_item st (strip_skipped item) ?p) = fst (scan_item st item ?p)"
  proof (cases "typeof_object item")
    case True
    with "13.IH"(1) show ?thesis by (simp add: scan_item_def typeof_object_strip)
  next
    case False
    then show ?thesis by (cases item) (simp_all add: scan_item_def typeof_object_def)
  qed
  have "fst (scan_items (snd (scan_item st item ?p)) (strip_items items) (index + 1) currentPath)
          = fst (scan_items (snd (scan_item st item ?p)) items (index + 1) currentPath)"
    by (rule "13.IH"(2) [of "fst (scan_item st item ?p)"]) (simp add: scan_item_def)
  then have "fst (scan_items st (strip_items items) (index + 1) currentPath)
               = fst (scan_items st items (index + 1) currentPath)"
    using scan_items_fst by metis
  with one show ?case by (simp add: scan_items_Cons del: scan_items.simps)
qed simp_all

text \<open>The scanner calls detectPHI once on each string field the traversal lists.\<close>

lemma hits_simps:
  "hits st [] = []"
  "hits st ((p, s) # fs) = fst (scan_string st s p) @ hits st fs"
  "hits st (fs @ gs) = hits st fs @ hits st gs"
  by (simp_all add: hits_def)

lemma scan_fields_all:
  "storable v \<longrightarrow> (case v of JStr s \<Rightarrow> False | JArr xs \<Rightarrow> False | _ \<Rightarrow> True) \<longrightarrow>
     fst (scanForPHI st v p) = hits st (string_fields v p)"
  "storable_entries es \<longrightarrow> fst (scan_entries st es p) = hits st (entry_fields es p)"
  "True"
  "storable v \<longrightarrow> fst (scan_entry st k v p)
     = (if skipped k then [] else hits st (string_fields v (child_path p k)))"
  "storable_items xs \<longrightarrow> fst (scan_items st xs i p) = hits st (item_fields xs i p)"
proof (induction st v p and st es p and st xs i p and st k v p and st xs i p
       rule: scanForPHI_scan_entries_scan_elements_scan_entry_scan_items.induct)
  case (8 st key v es path)
  have "storable_entries es \<longrightarrow>
          fst (scan_entries (snd (scan_entry st key v path)) es path)
            = hits (snd (scan_entry st key v path)) (entry_fields es path)"
    by (rule "8.IH"(2) [of "fst (scan_entry st key v path)"]) simp
  moreover have "fst (scan_entries (snd (scan_entry st key v path)) es path) = fst (scan_entries st es path)"
    by (rule scan_entries_fst)
  moreover have "hits (snd (scan_entry st key v path)) (entry_fields es path) = hits st (entry_fields es path)"
    unfolding hits_def using scan_string_fst [of "snd (scan_entry st key v path)" _ _ st] by simp
  ultimately have "storable_entries es \<longrightarrow> fst (scan_entries st es path) = hits st (entry_fields es path)"
    by simp
  with "8.IH"(1) show ?case
    by (simp add: scan_entries_Cons hits_simps del: scan_entries.simps)
next
  case (11 st key v path)
  show ?case
  proof (cases "skipped key")
    case True
    then show ?thesis by (simp add: scan_entry_skipped)
  next
    case False
    show ?thesis
    proof (cases v)
      case (JStr s)
      with False show ?thesis by (simp add: scan_entry_string hits_simps)
    next
      case (JArr items)
      with False "11.IH"(1) [OF refl False JArr] show ?thesis by (simp add: scan_entry_array)
    next
      case (JObj es)
      with False "11.IH"(2) [OF refl False JObj] show ?thesis by (simp add: scan_entry_object)
    qed (use False in \<open>simp_all add: scan_entry.simps Let_def hits_simps\<close>)
  qed
next
  case (13 st item items index currentPath)
  let ?p = "index_path currentPath index"
  let ?st1 = "snd (scan_item st item ?p)"
  have one: "(case item of JArr ys \<Rightarrow> False | _ \<Rightarrow> True) \<longrightarrow> storable item \<longrightarrow>
               fst (scan_item st item ?p) = hits st (string_fields item ?p)"
  proof (cases "typeof_object item")
    case True
    with "13.IH"(1) show ?thesis
      by (cases item) (simp_all add: scan_item_def typeof_object_def)
  next
    case False
    then show ?thesis by (cases item) (simp_all add: scan_item_def typeof_object_def hits_simps)
  qed
  have "storable_items items \<longrightarrow>
          fst (scan_items ?st1 items (index + 1) currentPath)
            = hits ?st1 (item_fields items (index + 1) currentPath)"
    by (rule "13.IH"(2) [of "fst (scan_item st item ?p)"]) (simp add: scan_item_def)
  moreover have "fst (scan_items ?st1 items (index + 1) currentPath)
                   = fst (scan_items st items (index + 1) currentPath)"
    by (rule scan_items_fst)
  moreover have "hits ?st1 (item_fields items (index + 1) currentPath)
                   = hits st (item_fields items (index + 1) currentPath)"
    unfolding hits_def using scan_string_fst [of ?st1 _ _ st] by simp
  ultimately have "storable_items items \<longrightarrow>
      fst (scan_items st items (index + 1) currentPath) = hits st (item_fields items (index + 1) currentPath)"
    by simp
  with one show ?case
    by (simp add: scan_items_Cons hits_simps del: scan_items.simps)
qed (simp_all add: hits_simps)

lemma nested_string_found:
  assumes k1: "\<not> skipped k1" and k2: "\<not> skipped k2"
    and phi: "fst (detectPHI st (JStr s)) = Some phi"
  shows "\<lparr>field = k1 @ ''['' @ show_nat (length xs1) @ ''].'' @ k2 @ ''['' @ show_nat (length ys1) @ '']'',
          violations = phi\<rparr>
     \<in> set (fst (scanForPHI st
          (JObj (es1 @ (k1, JArr (xs1 @ JObj (fs1 @ (k2, JArr (ys1 @ JStr s # ys2)) # fs2) # xs2)) # es2))
          []))"
proof -
  let ?q = "index_path k1 (length xs1)"
  let ?r = "index_path (child_path ?q k2) (length ys1)"
  let ?inner = "JArr (ys1 @ JStr s # ys2)"
  let ?obj = "JObj (fs1 @ (k2, ?inner) # fs2)"
  let ?outer = "JArr (xs1 @ ?obj # xs2)"
  have q: "?q \<noteq> []" by (simp add: index_path_def)
  have path: "?r = k1 @ ''['' @ show_nat (length xs1) @ ''].'' @ k2 @ ''['' @ show_nat (length ys1) @ '']''"
    using q by (simp add: index_path_def child_path_def)
  have "\<lparr>field = ?r, violations = phi\<rparr> \<in> set (fst (scan_item st (JStr s) ?r))"
    using phi by (cases "detectPHI st (JStr s)") (simp add: scan_item_def typeof_object_def scan_string_def)
  also have "\<dots> \<subseteq> set (fst (scan_items st (ys1 @ JStr s # ys2) 0 (child_path ?q k2)))"
    using scan_item_in_items [of st "JStr s" "child_path ?q k2" 0 ys1 ys2] by simp
  also have "\<dots> = set (fst (scan_entry st k2 ?inner ?q))"
    using k2 by (simp add: scan_entry_array)
  also have "\<dots> \<subseteq> set (fst (scan_entries st (fs1 @ (k2, ?inner) # fs2) ?q))"
    by (rule scan_entry_in_entries)
  also have "\<dots> = set (fst (scan_item st ?obj ?q))"
    by (simp add: scan_item_def typeof_object_def)
  also have "\<dots> \<subseteq> set (fst (scan_items st (xs1 @ ?obj # xs2) 0 k1))"
    using scan_item_in_items [of st ?obj k1 0 xs1 xs2] by simp
  also have "\<dots> = set (fst (scan_entry st k1 ?outer []))"
    using k1 by (simp add: scan_entry_array child_path_def)
  also have "\<dots> \<subseteq> set (fst (scan_entries st (es1 @ (k1, ?outer) # es2) []))"
    by (rule scan_entry_in_entries)
  finally show ?thesis by (simp add: path)
qed

text \<open>The email pattern on an address whose domain starts with an institutional word.\<close>

lemma ms_Eps: "ms ic Eps = (\<lambda>x. [x])"
  by (rule ext) simp

lemma ms_seq_Cons: "ms ic (seq (r # rs)) x = concat (map (ms ic (seq rs)) (ms ic r x))"
  by (cases rs) (simp_all add: ms_Eps)

lemma ms_alts_member: "r \<in> set rs \<Longrightarrow> ms ic r x \<noteq> [] \<Longrightarrow> ms ic (alts rs) x \<noteq> []"
  by (induction rs rule: alts.induct) auto

lemma cls_match_self: "cls_match ic [CChar c] c"
  by (simp add: cls_match_def)

lemma ms_lit_nonempty: "ms ic (lit w) (p, w @ rest) \<noteq> []"
proof (induction w arbitrary: p)
  case Nil
  then show ?case by (simp add: lit_def)
next
  case (Cons c w)
  have "ms ic (lit (c # w)) (p, (c # w) @ rest) = ms ic (lit w) (Some c, w @ rest)"
    unfolding lit_def by (simp add: ms_seq_Cons cls_match_self del: seq.simps)
  with Cons.IH show ?case by simp
qed

lemma rep_cls_suffix:
  "(p', r') \<in> set (rep_cls ic cl mn mx p cs) \<Longrightarrow> \<exists>used. cs = used @ r'"
proof (induction cs arbitrary: mn mx p)
  case Nil
  then show ?case by (simp split: if_splits)
next
  case (Cons c cs)
  show ?case
  proof (cases "(p', r') = (p, c # cs)")
    case True
    then show ?thesis by simp
  next
    case False
    with Cons.prems
    have "(p', r') \<in> set (rep_cls ic cl (mn - 1) (map_option (\<lambda>m. m - 1) mx) (Some c) cs)"
      by (auto split: if_splits)
    from Cons.IH [OF this] obtain used where "cs = used @ r'" by blast
    then have "c # cs = (c # used) @ r'" by simp
    then show ?thesis by blast
  qed
qed

lemma split_at_unique:
  "a \<notin> set l \<Longrightarrow> a \<notin> set d \<Longrightarrow> X @ a # Y = l @ a # d \<Longrightarrow> Y = d"
proof (induction l arbitrary: X)
  case Nil
  then show ?case by (cases X) auto
next
  case (Cons x l)
  then show ?case by (cases X) auto
qed

lemma to_upper_cases: "to_upper c = c \<or> to_upper c \<in> set upper_alphabet"
proof (cases "map_of (zip lower_alphabet upper_alphabet) c")
  case None
  then show ?thesis by (simp add: to_upper_def)
next
  case (Some d)
  then have "(c, d) \<in> set (zip lower_alphabet upper_alphabet)" by (rule map_of_SomeD)
  then have "d \<in> set upper_alphabet" by (rule set_zip_rightD)
  with Some show ?thesis by (simp add: to_upper_def)
qed

lemma to_lower_cases: "to_lower c = c \<or> to_lower c \<in> set lower_alphabet"
proof (cases "map_of (zip upper_alphabet lower_alphabet) c")
  case None
  then show ?thesis by (simp add: to_lower_def)
next
  case (Some d)
  then have "(c, d) \<in> set (zip upper_alphabet lower_alphabet)" by (rule map_of_SomeD)
  then have "d \<in> set lower_alphabet" by (rule set_zip_rightD)
  with Some show ?thesis by (simp add: to_lower_def)
qed

lemma at_not_letter: "CHR ''@'' \<notin> set upper_alphabet" "CHR ''@'' \<notin> set lower_alphabet"
  by (simp_all add: upper_alphabet_def lower_alphabet_def)

lemma to_upper_at:
  assumes "to_upper c = CHR ''@''"
  shows "c = CHR ''@''"
  using to_upper_cases [of c]
proof
  assume "to_upper c = c"
  with assms show ?thesis by simp
next
  assume "to_upper c \<in> set upper_alphabet"
  with assms at_not_letter(1) show ?thesis by simp
qed

lemma to_lower_at:
  assumes "to_lower c = CHR ''@''"
  shows "c = CHR ''@''"
  using to_lower_cases [of c]
proof
  assume "to_lower c = c"
  with assms show ?thesis by simp
next
  assume "to_lower c \<in> set lower_alphabet"
  with assms at_not_letter(2) show ?thesis by simp
qed

lemma cls_match_at: "cls_match ic [CChar CHR ''@''] c \<Longrightarrow> c = CHR ''@''"
  using to_upper_at [of c] to_lower_at [of c] by (auto simp: cls_match_def)

text \<open>The tail of the email pattern after the local part.\<close>

lemma concat_map_Nil: "(\<And>x. x \<in> set xs \<Longrightarrow> f x = []) \<Longrightarrow> concat (map f xs) = []"
  by (induction xs) auto

lemma institutional_lookahead:
  assumes "pre \<in> set institutional"
  shows "ms True (NegLook (alts (map lit institutional))) (q, pre @ rest) = []"
proof -
  have "ms True (lit pre) (q, pre @ rest) \<noteq> []" by (rule ms_lit_nonempty)
  with assms have "ms True (alts (map lit institutional)) (q, pre @ rest) \<noteq> []"
    by (intro ms_alts_member [of "lit pre"]) auto
  then show ?thesis by simp
qed

lemma personalEmail_no_match_at:
  assumes at_l: "CHR ''@'' \<notin> set l" and at_d: "CHR ''@'' \<notin> set (pre @ rest)"
    and pre: "pre \<in> set institutional" and suffix: "l @ ''@'' @ pre @ rest = X @ cs"
  shows "ms True (source personalEmail_re) (p, cs) = []"
proof -
  let ?A = "NegLook (alts (map lit institutional))"
  let ?R4 = "[plus (alnum @ [CChar CHR ''.'', CChar CHR ''-'']), Atom [CChar CHR ''.''],
      Rep 2 None letters, WordB]"
  have tail: "ms True (seq (Atom [CChar CHR ''@''] # ?A # ?R4)) (p', r') = []"
    if mem: "(p', r') \<in> set (rep_cls True local_part 1 None p cs)" for p' r'
  proof (cases r')
    case Nil
    then show ?thesis by (simp add: ms_seq_Cons del: seq.simps)
  next
    case (Cons c r'')
    show ?thesis
    proof (cases "cls_match True [CChar CHR ''@''] c")
      case False
      with Cons show ?thesis by (simp add: ms_seq_Cons del: seq.simps)
    next
      case True
      then have c: "c = CHR ''@''" by (rule cls_match_at)
      from rep_cls_suffix [OF mem] obtain used where "cs = used @ r'" by blast
      with suffix Cons c have "(X @ used) @ CHR ''@'' # r'' = l @ CHR ''@'' # (pre @ rest)" by simp
      from split_at_unique [OF at_l at_d this] have "r'' = pre @ rest" .
      with institutional_lookahead [OF pre, of "Some c" rest]
      have "ms True ?A (Some c, r'') = []" by simp
      with Cons True show ?thesis by (simp add: ms_seq_Cons del: seq.simps ms.simps(7))
    qed
  qed
  have rep: "ms True (plus local_part) (p, cs) = rep_cls True local_part 1 None p cs"
    by (simp add: plus_def)
  have "concat (map (ms True (seq (Atom [CChar CHR ''@''] # ?A # ?R4)))
                  (rep_cls True local_part 1 None p cs)) = []"
  proof (rule concat_map_Nil)
    fix y
    assume "y \<in> set (rep_cls True local_part 1 None p cs)"
    then show "ms True (seq (Atom [CChar CHR ''@''] # ?A # ?R4)) y = []"
      using tail [of "fst y" "snd y"] by (simp only: prod.collapse)
  qed
  then have "ms True (seq (plus local_part # Atom [CChar CHR ''@''] # ?A # ?R4)) (p, cs) = []"
    unfolding ms_seq_Cons [of True "plus local_part"] rep .
  then have "ms True (seq (WordB # plus local_part # Atom [CChar CHR ''@''] # ?A # ?R4)) (p, cs) = []"
    by (simp add: ms_seq_Cons [of True WordB] del: seq.simps)
  then show ?thesis by (simp add: personalEmail_re_def)
qed

lemma exec_scan_None:
  "(\<And>j. match_at re s j = None) \<Longrightarrow> exec_scan re s i = None"
proof (induction re s i rule: exec_scan.induct)
  case (1 re s i)
  then show ?case by (simp add: exec_scan.simps [of re s i])
qed

lemma string_match_None:
  "(\<And>j. match_at re s j = None) \<Longrightarrow> string_match re li s = (None, 0)"
  by (simp add: string_match_def match_loop.simps [of re s 0 "[]"] exec_scan_None)

lemma personalEmail_institutional:
  assumes "CHR ''@'' \<notin> set l" and "CHR ''@'' \<notin> set (pre @ rest)" and "pre \<in> set institutional"
  shows "string_match personalEmail_re li (l @ ''@'' @ pre @ rest) = (None, 0)"
proof (rule string_match_None)
  fix j
  let ?s = "l @ ''@'' @ pre @ rest"
  have split: "?s = take j ?s @ drop j ?s" by (simp only: append_take_drop_id)
  have no: "ms True (source personalEmail_re) (p, drop j ?s) = []" for p
    by (rule personalEmail_no_match_at [OF assms split])
  have ic: "ignoreCase personalEmail_re = True" by (simp add: personalEmail_re_def)
  show "match_at personalEmail_re ?s j = None"
    unfolding match_at_def pos_at_def ic no by simp
qed

lemma report_type: "x \<in> set (report ty m) \<Longrightarrow> type x = ty"
  by (auto simp: report_def Let_def split: option.splits if_splits)

lemma report_None: "report ty None = []"
  by (simp add: report_def)

section \<open>Properties of the handlers\<close>

lemma issue_cases:
  "issue commits wr w =
     (if commits wr \<and> \<not> (case wr of UpdateDoc p upd \<Rightarrow> docs w p = None | _ \<Rightarrow> False)
      then (Inr (), apply_write wr (w\<lparr>issued := issued w @ [wr]\<rparr>))
      else (Inl (StoreError ''write rejected''), w\<lparr>issued := issued w @ [wr]\<rparr>))"
  by (simp add: issue_def Let_def)


lemma validateBabyData_findings:
  assumes "fst (scanForPHI (lastIndex w) (data snap) []) = fs" and "fs \<noteq> []"
  shows "validateBabyData commits snap c w =
     (let w1 = w\<lparr>lastIndex := snd (scanForPHI (lastIndex w) (data snap) [])\<rparr>;
          e = audit c fs ''deleted''
      in if \<not> commits (AddViolation e)
         then (Inl (StoreError ''write rejected''), w1\<lparr>issued := issued w @ [AddViolation e]\<rparr>)
         else if \<not> commits (DeleteDoc (ref snap))
         then (Inl (StoreError ''write rejected''),
               w1\<lparr>issued := issued w @ [AddViolation e, DeleteDoc (ref snap)],
                  phi_violations := phi_violations w @ [e]\<rparr>)
         else (Inr (blocked ''PHI detected'' (map field fs)),
               w1\<lparr>issued := issued w @ [AddViolation e, DeleteDoc (ref snap)],
                  phi_violations := phi_violations w @ [e],
                  docs := (docs w)(ref snap := None)\<rparr>))"
  using assms
  by (cases "scanForPHI (lastIndex w) (data snap) []")
     (simp add: validateBabyData_def issue_cases audit_def Let_def)


lemma validateBabyDataUpdate_findings:
  assumes "fst (scanForPHI (lastIndex w) (data (after chg)) []) = fs" and "fs \<noteq> []"
  shows "validateBabyDataUpdate commits chg c w =
     (let w1 = w\<lparr>lastIndex := snd (scanForPHI (lastIndex w) (data (after chg)) [])\<rparr>;
          e = audit c fs ''rollback'';
          restore = SetDoc (ref (after chg)) (data (before chg)) False
      in if \<not> commits (AddViolation e)
         then (Inl (StoreError ''write rejected''), w1\<lparr>issued := issued w @ [AddViolation e]\<rparr>)
         else if \<not> commits restore
         then (Inl (StoreError ''write rejected''),
               w1\<lparr>issued := issued w @ [AddViolation e, restore],
                  phi_violations := phi_violations w @ [e]\<rparr>)
         else (Inr (rolled_back ''PHI detected in update'' (map field fs)),
               w1\<lparr>issued := issued w @ [AddViolation e, restore],
                  phi_violations := phi_violations w @ [e],
                  docs := (docs w)(ref (after chg) \<mapsto> data (before chg))\<rparr>))"
  using assms
  by (cases "scanForPHI (lastIndex w) (data (after chg)) []"; cases "data (before chg)")
     (simp_all add: validateBabyDataUpdate_def issue_cases audit_def Let_def)



lemma onCreate_findings:
  assumes "fst (scanForPHI (lastIndex w) v []) = fs" and "fs \<noteq> []"
  shows "issued (snd (onCreate commits c v w)) =
           issued w @ (if commits (AddViolation (audit c fs ''deleted''))
                       then [AddViolation (audit c fs ''deleted''), DeleteDoc (baby_path c)]
                       else [AddViolation (audit c fs ''deleted'')])"
    and "fst (onCreate commits c v w) =
           (if commits (AddViolation (audit c fs ''deleted'')) \<and> commits (DeleteDoc (baby_path c))
            then Inr (blocked ''PHI detected'' (map field fs))
            else Inl (StoreError ''write rejected''))"
    and "docs (snd (onCreate commits c v w)) =
           (if commits (AddViolation (audit c fs ''deleted'')) \<and> commits (DeleteDoc (baby_path c))
            then (docs w)(baby_path c := None)
            else (docs w)(baby_path c \<mapsto> v))"
  using assms by (simp_all add: onCreate_def validateBabyData_findings [where fs = fs] Let_def)

lemma onUpdate_findings:
  assumes "fst (scanForPHI (lastIndex w) new []) = fs" and "fs \<noteq> []"
  shows "issued (snd (onUpdate commits c old new w)) =
           issued w @ (if commits (AddViolation (audit c fs ''rollback''))
                       then [AddViolation (audit c fs ''rollback''), SetDoc (baby_path c) old False]
                       else [AddViolation (audit c fs ''rollback'')])"
    and "fst (onUpdate commits c old new w) =
           (if commits (AddViolation (audit c fs ''rollback'')) \<and> commits (SetDoc (baby_path c) old False)
            then Inr (rolled_back ''PHI detected in update'' (map field fs))
            else Inl (StoreError ''write rejected''))"
    and "docs (snd (onUpdate commits c old new w)) =
           (if commits (AddViolation (audit c fs ''rollback'')) \<and> commits (SetDoc (baby_path c) old False)
            then (docs w)(baby_path c \<mapsto> old)
            else (docs w)(baby_path c \<mapsto> new))"
  using assms by (simp_all add: onUpdate_def validateBabyDataUpdate_findings [where fs = fs] Let_def)

lemma scan_phone_note: "fst (scanForPHI st phone_note []) = phone_findings"
proof -
  have "fst (scanForPHI (\<lambda>d. 0) phone_note []) = phone_findings" by code_simp
  then show ?thesis using scanForPHI_fst [of st phone_note "[]" "\<lambda>d. 0"] by simp
qed


lemma scan_clean_note: "fst (scanForPHI st clean_note []) = []"
proof -
  have "fst (scanForPHI (\<lambda>d. 0) clean_note []) = []" by code_simp
  then show ?thesis using scanForPHI_fst [of st clean_note "[]" "\<lambda>d. 0"] by simp
qed


lemma generateShiftSummary_missing_shift:
  assumes "app \<noteq> []" and "shift \<noteq> []" and "readable env (shift_path app (uid a) shift)"
    and "docs w (shift_path app (uid a) shift) = None"
  shows "generateShiftSummary env \<lparr>req_appId = Some app, req_shiftId = Some shift\<rparr> (Some a) w
           = (Inl (HttpsError internal ''Failed to generate shift summary'' (Some ''Shift not found'')), w)"
  using assms by (simp add: generateShiftSummary_def summary_try_def fs_get_def falsy_def Let_def)



subsection \<open>Where a sample comes from\<close>

text \<open>
  A violation of a detector is built from the array that \<^verbatim>\<open>match\<close> returned for the
  pattern of that detector: its sample is cut from the first element of the array (for the
  name detector, from the first element that the name filter keeps). A finding of a scan
  is the result of \<^verbatim>\<open>detectPHI\<close> on one string of the record, and carries the path of that
  string.
\<close>

lemma report_first:
  assumes "x \<in> set (report ty mo)"
  shows "\<exists>m. mo = Some m \<and> type x = ty
     \<and> sample x = (if ty = fullName then substring (hd (filter name_filter m)) 0 15
                    else substring (hd m) 0 20) @ ''...''
     \<and> count x = (if ty = fullName then length (filter name_filter m) else length m)
     \<and> (ty = fullName \<longrightarrow> filter name_filter m \<noteq> [])"
proof (cases mo)
  case None
  with assms show ?thesis by (simp add: report_def)
next
  case (Some m)
  with assms show ?thesis
    by (cases "ty = fullName"; cases "filter name_filter m = []") (simp_all add: report_def Let_def)
qed

lemma string_match_nonempty: "fst (string_match re li s) = Some m \<Longrightarrow> m \<noteq> []"
  by (cases "match_loop re s 0 []") (auto simp: string_match_def dest: match_loop_nonempty)

lemma PHI_PATTERNS_map_of: "(ty, re) \<in> set PHI_PATTERNS \<Longrightarrow> map_of PHI_PATTERNS ty = Some re"
  by (rule map_of_is_SomeI) (simp_all add: PHI_PATTERNS_def)

lemma substring_length: "length (substring s 0 n) \<le> n"
  by (simp add: substring_def)

lemma detectPHI_first:
  assumes "fst (detectPHI st (JStr text)) = Some vs" and "x \<in> set vs"
  shows "\<exists>re m. map_of PHI_PATTERNS (type x) = Some re
           \<and> fst (string_match re 0 text) = Some m \<and> m \<noteq> []
           \<and> sample x = (if type x = fullName then substring (hd (filter name_filter m)) 0 15
                          else substring (hd m) 0 20) @ ''...''
           \<and> count x = (if type x = fullName then length (filter name_filter m) else length m)
           \<and> (type x = fullName \<longrightarrow> filter name_filter m \<noteq> [])"
proof -
  obtain ws st2 where a: "detect_loop st text PHI_PATTERNS = (ws, st2)"
    by (cases "detect_loop st text PHI_PATTERNS")
  with assms have "x \<in> set (fst (detect_loop st text PHI_PATTERNS))"
    by (auto simp: detectPHI_def split: if_splits)
  then obtain ty re where mem: "(ty, re) \<in> set PHI_PATTERNS"
    and rep: "x \<in> set (report ty (fst (string_match re 0 text)))"
    unfolding detect_loop_fst by auto
  from report_first [OF rep] obtain m where m: "fst (string_match re 0 text) = Some m"
    and ty: "type x = ty"
    and rest: "sample x = (if ty = fullName then substring (hd (filter name_filter m)) 0 15
                    else substring (hd m) 0 20) @ ''...''"
      "count x = (if ty = fullName then length (filter name_filter m) else length m)"
      "ty = fullName \<longrightarrow> filter name_filter m \<noteq> []"
    by blast
  from PHI_PATTERNS_map_of [OF mem] ty have "map_of PHI_PATTERNS (type x) = Some re" by simp
  moreover from string_match_nonempty [OF m] have "m \<noteq> []" .
  ultimately show ?thesis using m ty rest by blast
qed

lemma scan_string_field: "f \<in> set (fst (scan_string st s p)) \<Longrightarrow> field f = p"
  by (auto simp: scan_string_def split: prod.splits option.splits)

lemma scan_finding_field:
  assumes "storable (JObj es)" and "f \<in> set (fst (scanForPHI st (JObj es) p))"
  shows "\<exists>s. (field f, s) \<in> set (string_fields (JObj es) p)
           \<and> fst (detectPHI st (JStr s)) = Some (violations f)"
proof -
  from scan_fields_all(1) [of "JObj es" st p] assms
  have "f \<in> set (hits st (string_fields (JObj es) p))" by simp
  then obtain q s where qs: "(q, s) \<in> set (string_fields (JObj es) p)"
    and f: "f \<in> set (fst (scan_string st s q))"
    unfolding hits_def by auto
  from scan_string_field [OF f] scan_string_detect [OF f] qs show ?thesis by blast
qed

lemma scan_finding_detect:
  assumes "f \<in> set (fst (scanForPHI st v p))"
  shows "\<exists>s. fst (detectPHI st (JStr s)) = Some (violations f)"
proof -
  from scan_findings_detect(1) [of st v p] assms
  obtain s st' where "fst (detectPHI st' (JStr s)) = Some (violations f)" by blast
  then have "fst (detectPHI st (JStr s)) = Some (violations f)"
    using detectPHI_fst [of st "JStr s" st'] by simp
  then show ?thesis by blast
qed

lemma match_two_emails:
  "fst (string_match personalEmail_re 0 two_emails) = Some [''nurse.katie@gmail.com'', ''x@aol.com'']"
  by code_simp

lemma match_three_names:
  "fst (string_match fullName_re 0 three_names) = Some [''Room Two'', ''Jane Doe'', ''Amy Poe'']"
  by code_simp

lemma detect_two_emails:
  "fst (detectPHI (\<lambda>d. 0) (JStr two_emails))
     = Some [\<lparr>type = personalEmail, count = 2, sample = ''nurse.katie@gmail.co...''\<rparr>]"
  by code_simp

lemma detect_three_names:
  "fst (detectPHI (\<lambda>d. 0) (JStr three_names))
     = Some [\<lparr>type = fullName, count = 2, sample = ''Jane Doe...''\<rparr>]"
  by code_simp

lemma scan_two_emails:
  "fst (scanForPHI (\<lambda>d. 0) (JObj [(''note'', JStr two_emails)]) [])
     = [\<lparr>field = ''note'', violations = [\<lparr>type = personalEmail, count = 2, sample = ''nurse.katie@gmail.co...''\<rparr>]\<rparr>]"
  by code_simp

section \<open>The claims\<close>




text \<open>
  C2. A handler that detects findings is to issue the corrective write (the delete on
  create, the overwrite with the prior value on update) and the audit write after it. Both
  handlers await the audit write first and issue the corrective write only after it: when
  the store accepts every write the audit write stands before the corrective one in the
  trace, and when the store rejects the audit write the handler throws there, the delete
  is never issued and the record with the finding stays in the store.
\<close>

theorem audit_issued_before_corrective:
  "issued (snd (onCreate (\<lambda>wr. True) baby1 phone_note fresh_world))
     = [AddViolation (audit baby1 phone_findings ''deleted''), DeleteDoc (baby_path baby1)]
   \<and> \<not> audit_after_corrective (issued (snd (onCreate (\<lambda>wr. True) baby1 phone_note fresh_world)))
   \<and> issued (snd (onUpdate (\<lambda>wr. True) baby1 clean_note phone_note fresh_world))
     = [AddViolation (audit baby1 phone_findings ''rollback''), SetDoc (baby_path baby1) clean_note False]
   \<and> \<not> audit_after_corrective (issued (snd (onUpdate (\<lambda>wr. True) baby1 clean_note phone_note fresh_world)))
   \<and> fst (onCreate (\<lambda>wr. \<not> is_audit wr) baby1 phone_note fresh_world)
     = Inl (StoreError ''write rejected'')
   \<and> issued (snd (onCreate (\<lambda>wr. \<not> is_audit wr) baby1 phone_note fresh_world))
     = [AddViolation (audit baby1 phone_findings ''deleted'')]
   \<and> docs (snd (onCreate (\<lambda>wr. \<not> is_audit wr) baby1 phone_note fresh_world)) (baby_path baby1)
     = Some phone_note"
proof -
  have a: "fst (scanForPHI (lastIndex fresh_world) phone_note []) = phone_findings"
    by (rule scan_phone_note)
  have b: "phone_findings \<noteq> []" by (simp add: phone_findings_def)
  have i: "issued fresh_world = []" by (simp add: fresh_world_def)
  have 1: "issued (snd (onCreate (\<lambda>wr. True) baby1 phone_note fresh_world))
     = [AddViolation (audit baby1 phone_findings ''deleted''), DeleteDoc (baby_path baby1)]"
    using onCreate_findings(1) [OF a b, of "\<lambda>wr. True" baby1] i by simp
  have 2: "issued (snd (onUpdate (\<lambda>wr. True) baby1 clean_note phone_note fresh_world))
     = [AddViolation (audit baby1 phone_findings ''rollback''), SetDoc (baby_path baby1) clean_note False]"
    using onUpdate_findings(1) [OF a b, of "\<lambda>wr. True" baby1 clean_note] i by simp
  have 3: "fst (onCreate (\<lambda>wr. \<not> is_audit wr) baby1 phone_note fresh_world)
     = Inl (StoreError ''write rejected'')"
    using onCreate_findings(2) [OF a b, of "\<lambda>wr. \<not> is_audit wr" baby1]
    by (simp add: is_audit_def)
  have 4: "issued (snd (onCreate (\<lambda>wr. \<not> is_audit wr) baby1 phone_note fresh_world))
     = [AddViolation (audit baby1 phone_findings ''deleted'')]"
    using onCreate_findings(1) [OF a b, of "\<lambda>wr. \<not> is_audit wr" baby1] i
    by (simp add: is_audit_def)
  have 5: "docs (snd (onCreate (\<lambda>wr. \<not> is_audit wr) baby1 phone_note fresh_world)) (baby_path baby1)
     = Some phone_note"
    using onCreate_findings(3) [OF a b, of "\<lambda>wr. \<not> is_audit wr" baby1]
    by (simp add: is_audit_def)
  from 1 2 3 4 5 show ?thesis
    by (simp add: audit_after_corrective_def is_audit_def is_corrective_def)
qed

text \<open>
  C3. An authenticated call with both identifiers, for a shift document that does not
  exist, is to fail with a not-found error. The handler throws that error inside its
  \<^verbatim>\<open>try\<close> block; the \<^verbatim>\<open>catch\<close> of the same block turns every error into an
  internal error, so the call fails with the code \<open>internal\<close> and carries the not-found
  message only as details.
\<close>

theorem missing_shift_reports_internal:
  "fst (generateShiftSummary
          \<lparr>readable = (\<lambda>p. True), summarize = (\<lambda>p d w. (Inl (StoreError ''unreachable''), w))\<rparr>
          \<lparr>req_appId = Some ''nicu'', req_shiftId = Some ''shift1''\<rparr>
          (Some \<lparr>uid = ''nurse1''\<rparr>) fresh_world)
     = Inl (HttpsError internal ''Failed to generate shift summary'' (Some ''Shift not found''))"
  by (simp add: generateShiftSummary_missing_shift fresh_world_def)

text \<open>
  C4. The update handler is to overwrite the stored record with the prior value whenever
  the new value has findings. It awaits the audit write before it issues the overwrite:
  for a clean prior value and a new value with a finding, when the store rejects the audit
  write (and would accept the overwrite) the handler throws, the only write in the trace
  is the audit write, and the stored record is the new value, not the prior one.
\<close>

theorem rollback_not_issued:
  "docs (fresh_world\<lparr>docs := [baby_path baby1 \<mapsto> clean_note]\<rparr>) (baby_path baby1) = Some clean_note
   \<and> fst (scanForPHI (\<lambda>d. 0) clean_note []) = []
   \<and> fst (scanForPHI (\<lambda>d. 0) phone_note []) = phone_findings
   \<and> fst (onUpdate (\<lambda>wr. \<not> is_audit wr) baby1 clean_note phone_note
            (fresh_world\<lparr>docs := [baby_path baby1 \<mapsto> clean_note]\<rparr>))
     = Inl (StoreError ''write rejected'')
   \<and> issued (snd (onUpdate (\<lambda>wr. \<not> is_audit wr) baby1 clean_note phone_note
                    (fresh_world\<lparr>docs := [baby_path baby1 \<mapsto> clean_note]\<rparr>)))
     = [AddViolation (audit baby1 phone_findings ''rollback'')]
   \<and> docs (snd (onUpdate (\<lambda>wr. \<not> is_audit wr) baby1 clean_note phone_note
                  (fresh_world\<lparr>docs := [baby_path baby1 \<mapsto> clean_note]\<rparr>))) (baby_path baby1)
     = Some phone_note
   \<and> phone_note \<noteq> clean_note"
proof -
  let ?w = "fresh_world\<lparr>docs := [baby_path baby1 \<mapsto> clean_note]\<rparr>"
  have a: "fst (scanForPHI (lastIndex ?w) phone_note []) = phone_findings"
    by (rule scan_phone_note)
  have b: "phone_findings \<noteq> []" by (simp add: phone_findings_def)
  have i: "issued ?w = []" by (simp add: fresh_world_def)
  have 1: "fst (onUpdate (\<lambda>wr. \<not> is_audit wr) baby1 clean_note phone_note ?w)
     = Inl (StoreError ''write rejected'')"
    using onUpdate_findings(2) [OF a b, of "\<lambda>wr. \<not> is_audit wr" baby1 clean_note]
    by (simp add: is_audit_def)
  have 2: "issued (snd (onUpdate (\<lambda>wr. \<not> is_audit wr) baby1 clean_note phone_note ?w))
     = [AddViolation (audit baby1 phone_findings ''rollback'')]"
    using onUpdate_findings(1) [OF a b, of "\<lambda>wr. \<not> is_audit wr" baby1 clean_note] i
    by (simp add: is_audit_def)
  have 3: "docs (snd (onUpdate (\<lambda>wr. \<not> is_audit wr) baby1 clean_note phone_note ?w)) (baby_path baby1)
     = Some phone_note"
    using onUpdate_findings(3) [OF a b, of "\<lambda>wr. \<not> is_audit wr" baby1 clean_note]
    by (simp add: is_audit_def)
  have 4: "phone_note \<noteq> clean_note" by (simp add: phone_note_def clean_note_def)
  have 5: "fst (scanForPHI (\<lambda>d. 0) clean_note []) = []" by (rule scan_clean_note)
  have 6: "fst (scanForPHI (\<lambda>d. 0) phone_note []) = phone_findings" by (rule scan_phone_note)
  from 1 2 3 4 5 6 show ?thesis by simp
qed

text \<open>
  C5, as the claim states it, fails: the sample of a finding is the first 20 code units of
  the first match followed by three dots, so a match of 20 code units or more gives a
  sample of 23.
\<close>

theorem sample_length_counterexample:
  "fst (detectPHI (\<lambda>d. 0) (JStr ''nurse.katie@gmail.com''))
     = Some [\<lparr>type = personalEmail, count = 1, sample = ''nurse.katie@gmail.co...''\<rparr>]
   \<and> length ''nurse.katie@gmail.co...'' = 23"
  by code_simp

text \<open>
  C5, amended. Every finding of a scan is the result of \<^verbatim>\<open>detectPHI\<close> on a string of the
  record (in a record as the store holds it, on the string at the path of the finding).
  For every text, every violation that \<^verbatim>\<open>detectPHI\<close> reports for it belongs to a detector
  whose pattern matches the text; its sample is the first 20 code units of the first match
  of that pattern followed by three dots, and at most 23 code units long. For the name
  detector it is the first 15 code units of the first match that the name filter keeps,
  followed by three dots, and at most 18 code units long. The count is the number of
  matches (of matches that the filter keeps).
\<close>

theorem sample_length:
  "(f \<in> set (fst (scanForPHI st v p)) \<longrightarrow>
      (\<exists>s. fst (detectPHI st (JStr s)) = Some (violations f)))
   \<and> (storable (JObj es) \<and> f \<in> set (fst (scanForPHI st (JObj es) p)) \<longrightarrow>
      (\<exists>s. (field f, s) \<in> set (string_fields (JObj es) p)
            \<and> fst (detectPHI st (JStr s)) = Some (violations f)))
   \<and> (fst (detectPHI st (JStr text)) = Some vs \<and> x \<in> set vs \<longrightarrow>
      (\<exists>re m. map_of PHI_PATTERNS (type x) = Some re
           \<and> fst (string_match re 0 text) = Some m \<and> m \<noteq> []
           \<and> sample x = (if type x = fullName then substring (hd (filter name_filter m)) 0 15
                          else substring (hd m) 0 20) @ ''...''
           \<and> count x = (if type x = fullName then length (filter name_filter m) else length m)
           \<and> (type x = fullName \<longrightarrow> filter name_filter m \<noteq> [])
           \<and> length (sample x) \<le> 23
           \<and> (type x = fullName \<longrightarrow> length (sample x) \<le> 18)))"
proof (intro conjI impI)
  assume "f \<in> set (fst (scanForPHI st v p))"
  then show "\<exists>s. fst (detectPHI st (JStr s)) = Some (violations f)"
    by (rule scan_finding_detect)
next
  assume "storable (JObj es) \<and> f \<in> set (fst (scanForPHI st (JObj es) p))"
  then show "\<exists>s. (field f, s) \<in> set (string_fields (JObj es) p)
            \<and> fst (detectPHI st (JStr s)) = Some (violations f)"
    using scan_finding_field by blast
next
  assume a: "fst (detectPHI st (JStr text)) = Some vs \<and> x \<in> set vs"
  then have d: "fst (detectPHI st (JStr text)) = Some vs" and x: "x \<in> set vs" by simp_all
  from detectPHI_first [OF d x] obtain re m where
    1: "map_of PHI_PATTERNS (type x) = Some re" "fst (string_match re 0 text) = Some m" "m \<noteq> []"
    and 2: "sample x = (if type x = fullName then substring (hd (filter name_filter m)) 0 15
                          else substring (hd m) 0 20) @ ''...''"
    and 3: "count x = (if type x = fullName then length (filter name_filter m) else length m)"
      "type x = fullName \<longrightarrow> filter name_filter m \<noteq> []"
    by blast
  from detectPHI_sample [OF d x]
  have 4: "length (sample x) \<le> 23" "type x = fullName \<longrightarrow> length (sample x) \<le> 18" by simp_all
  from 1 2 3 4 show "\<exists>re m. map_of PHI_PATTERNS (type x) = Some re
           \<and> fst (string_match re 0 text) = Some m \<and> m \<noteq> []
           \<and> sample x = (if type x = fullName then substring (hd (filter name_filter m)) 0 15
                          else substring (hd m) 0 20) @ ''...''
           \<and> count x = (if type x = fullName then length (filter name_filter m) else length m)
           \<and> (type x = fullName \<longrightarrow> filter name_filter m \<noteq> [])
           \<and> length (sample x) \<le> 23
           \<and> (type x = fullName \<longrightarrow> length (sample x) \<le> 18)"
    by blast
qed

theorem sample_length_witness:
  "fst (scanForPHI (\<lambda>d. 0) (JObj [(''note'', JStr two_emails)]) [])
     = [\<lparr>field = ''note'', violations = [\<lparr>type = personalEmail, count = 2, sample = ''nurse.katie@gmail.co...''\<rparr>]\<rparr>]
   \<and> storable (JObj [(''note'', JStr two_emails)])
   \<and> (\<exists>s. (''note'', s) \<in> set (string_fields (JObj [(''note'', JStr two_emails)]) [])
          \<and> fst (detectPHI (\<lambda>d. 0) (JStr s))
              = Some [\<lparr>type = personalEmail, count = 2, sample = ''nurse.katie@gmail.co...''\<rparr>])
   \<and> fst (detectPHI (\<lambda>d. 0) (JStr two_emails))
       = Some [\<lparr>type = personalEmail, count = 2, sample = ''nurse.katie@gmail.co...''\<rparr>]
   \<and> fst (string_match personalEmail_re 0 two_emails) = Some [''nurse.katie@gmail.com'', ''x@aol.com'']
   \<and> ''nurse.katie@gmail.co...'' = substring ''nurse.katie@gmail.com'' 0 20 @ ''...''
   \<and> fst (detectPHI (\<lambda>d. 0) (JStr three_names))
       = Some [\<lparr>type = fullName, count = 2, sample = ''Jane Doe...''\<rparr>]
   \<and> fst (string_match fullName_re 0 three_names) = Some [''Room Two'', ''Jane Doe'', ''Amy Poe'']
   \<and> filter name_filter [''Room Two'', ''Jane Doe'', ''Amy Poe''] = [''Jane Doe'', ''Amy Poe'']
   \<and> ''Jane Doe...'' = substring ''Jane Doe'' 0 15 @ ''...''"
proof -
  let ?x = "\<lparr>type = personalEmail, count = 2, sample = ''nurse.katie@gmail.co...''\<rparr>"
  let ?f = "\<lparr>field = ''note'', violations = [?x]\<rparr>"
  let ?y = "\<lparr>type = fullName, count = 2, sample = ''Jane Doe...''\<rparr>"
  let ?doc = "JObj [(''note'', JStr two_emails)]"
  note T = sample_length [of ?f "\<lambda>d. 0" ?doc "[]" "[(''note'', JStr two_emails)]" two_emails "[?x]" ?x]
  note U = sample_length [of ?f "\<lambda>d. 0" ?doc "[]" "[(''note'', JStr two_emails)]" three_names "[?y]" ?y]
  have sc: "fst (scanForPHI (\<lambda>d. 0) ?doc []) = [?f]" by (rule scan_two_emails)
  have st: "storable ?doc" by (simp add: two_emails_def)
  have de: "fst (detectPHI (\<lambda>d. 0) (JStr two_emails)) = Some [?x]" by (rule detect_two_emails)
  have dn: "fst (detectPHI (\<lambda>d. 0) (JStr three_names)) = Some [?y]" by (rule detect_three_names)
  have pe: "map_of PHI_PATTERNS personalEmail = Some personalEmail_re"
    by (simp add: PHI_PATTERNS_def)
  have pn: "map_of PHI_PATTERNS fullName = Some fullName_re"
    by (simp add: PHI_PATTERNS_def)
  have nf: "filter name_filter [''Room Two'', ''Jane Doe'', ''Amy Poe''] = [''Jane Doe'', ''Amy Poe'']"
    by code_simp
  from T sc st have 1: "\<exists>s. (''note'', s) \<in> set (string_fields ?doc [])
          \<and> fst (detectPHI (\<lambda>d. 0) (JStr s)) = Some [?x]"
    by simp
  from T de obtain re m where e: "map_of PHI_PATTERNS (type ?x) = Some re"
      "fst (string_match re 0 two_emails) = Some m"
      "sample ?x = (if type ?x = fullName then substring (hd (filter name_filter m)) 0 15
                          else substring (hd m) 0 20) @ ''...''"
    by auto
  from e(1) pe have re: "re = personalEmail_re" by simp
  from e(2) re match_two_emails have m: "m = [''nurse.katie@gmail.com'', ''x@aol.com'']" by simp
  from e(3) m have 2: "''nurse.katie@gmail.co...'' = substring ''nurse.katie@gmail.com'' 0 20 @ ''...''"
    by simp
  from U dn obtain re' m' where n: "map_of PHI_PATTERNS (type ?y) = Some re'"
      "fst (string_match re' 0 three_names) = Some m'"
      "sample ?y = (if type ?y = fullName then substring (hd (filter name_filter m')) 0 15
                          else substring (hd m') 0 20) @ ''...''"
    by auto
  from n(1) pn have re': "re' = fullName_re" by simp
  from n(2) re' match_three_names have m': "m' = [''Room Two'', ''Jane Doe'', ''Amy Poe'']" by simp
  from n(3) m' nf have 3: "''Jane Doe...'' = substring ''Jane Doe'' 0 15 @ ''...''"
    by simp
  from sc st 1 de match_two_emails 2 dn match_three_names nf 3 show ?thesis by blast
qed




text \<open>
  C7, as the claim states it, fails for a list held in a field the scanner skips by name:
  the matching string three levels down under \<^verbatim>\<open>_\<close> is not reported.
\<close>

theorem traversal_counterexample:
  "fst (scanForPHI (\<lambda>d. 0)
     (JObj [(''_'', JArr [JObj [(''notes'', JArr [JStr ''555-123-4567''])]])]) []) = []"
  by code_simp

text \<open>
  C7, amended. In every record, a string that matches a detector and lies three levels
  down, in a list of records of lists, under field names none of which is
  \<^verbatim>\<open>createdAt\<close>, \<^verbatim>\<open>updatedAt\<close> or \<^verbatim>\<open>_\<close>, is reported with the path
  \<^verbatim>\<open>field[i].field[j]\<close> of its position. And the findings of a stored record (no array
  directly inside an array) are those of one call of detectPHI on each string field
  outside the skipped names, each field taken once, in the order of the fields and of the
  list indices, each finding with the path of its field.
\<close>

theorem traversal_reaches_nested_strings:
  "(\<not> skipped k1 \<and> \<not> skipped k2 \<and> fst (detectPHI st (JStr s)) = Some phi \<longrightarrow>
      \<lparr>field = k1 @ ''['' @ show_nat (length xs1) @ ''].'' @ k2 @ ''['' @ show_nat (length ys1) @ '']'',
        violations = phi\<rparr>
      \<in> set (fst (scanForPHI st
           (JObj (es1 @ (k1, JArr (xs1 @ JObj (fs1 @ (k2, JArr (ys1 @ JStr s # ys2)) # fs2) # xs2)) # es2))
           [])))
   \<and> (storable (JObj es) \<longrightarrow> fst (scanForPHI st (JObj es) p) = hits st (string_fields (JObj es) p))"
  using nested_string_found [of k1 k2 st s phi xs1 ys1 es1 fs1 ys2 fs2 xs2 es2]
        scan_fields_all(1) [of "JObj es" st p]
  by simp

theorem traversal_reaches_nested_strings_witness:
  "\<not> skipped ''logs'' \<and> \<not> skipped ''notes''
   \<and> fst (detectPHI (\<lambda>d. 0) (JStr ''555-123-4567''))
       = Some [\<lparr>type = phone, count = 1, sample = ''555-123-4567...''\<rparr>]
   \<and> \<lparr>field = ''logs[1].notes[1]'',
        violations = [\<lparr>type = phone, count = 1, sample = ''555-123-4567...''\<rparr>]\<rparr>
       \<in> set (fst (scanForPHI (\<lambda>d. 0) nested_doc []))
   \<and> storable nested_doc
   \<and> string_fields nested_doc []
       = [(''logs[1].time'', ''08:00''), (''logs[1].notes[0]'', ''fed''),
          (''logs[1].notes[1]'', ''555-123-4567'')]
   \<and> fst (scanForPHI (\<lambda>d. 0) nested_doc []) = hits (\<lambda>d. 0) (string_fields nested_doc [])"
proof -
  let ?phi = "[\<lparr>type = phone, count = 1, sample = ''555-123-4567...''\<rparr>]"
  have a: "\<not> skipped ''logs''" and b: "\<not> skipped ''notes''" by (simp_all add: skipped_def)
  have c: "fst (detectPHI (\<lambda>d. 0) (JStr ''555-123-4567'')) = Some ?phi" by code_simp
  have d: "storable nested_doc" by (simp add: nested_doc_def)
  have e: "string_fields nested_doc []
       = [(''logs[1].time'', ''08:00''), (''logs[1].notes[0]'', ''fed''),
          (''logs[1].notes[1]'', ''555-123-4567'')]"
    by code_simp
  have n: "show_nat (Suc 0) = ''1''" by code_simp
  note T = traversal_reaches_nested_strings [of "''logs''" "''notes''" "\<lambda>d. 0" "''555-123-4567''" ?phi
         "[JNull]" "[JStr ''fed'']" "[(''weight'', JNum 1840)]" "[(''time'', JStr ''08:00'')]"
         "[]" "[]" "[]" "[]" "[(''weight'', JNum 1840),
     (''logs'', JArr [JNull, JObj [(''time'', JStr ''08:00''),
                                   (''notes'', JArr [JStr ''fed'', JStr ''555-123-4567''])]])]" "[]"]
  have eq: "fst (scanForPHI (\<lambda>d. 0) nested_doc []) = hits (\<lambda>d. 0) (string_fields nested_doc [])"
    using T [THEN conjunct2] d unfolding nested_doc_def by (rule mp)
  have "\<lparr>field = ''logs'' @ ''['' @ show_nat (length [JNull]) @ ''].'' @ ''notes'' @ ''[''
                  @ show_nat (length [JStr ''fed'']) @ '']'', violations = ?phi\<rparr>
      \<in> set (fst (scanForPHI (\<lambda>d. 0)
           (JObj ([(''weight'', JNum 1840)] @ (''logs'', JArr ([JNull] @ JObj ([(''time'', JStr ''08:00'')]
              @ (''notes'', JArr ([JStr ''fed''] @ JStr ''555-123-4567'' # [])) # []) # [])) # []))
           []))"
    by (rule T [THEN conjunct1, THEN mp, OF conjI [OF a conjI [OF b c]]])
  then have m: "\<lparr>field = ''logs[1].notes[1]'', violations = ?phi\<rparr>
                  \<in> set (fst (scanForPHI (\<lambda>d. 0) nested_doc []))"
    by (simp add: nested_doc_def n)
  from a b c d e m eq show ?thesis by simp
qed

text \<open>
  C8. Running the scanner twice on the same record produces the same ordered list of
  findings: the second scan starts with the \<^verbatim>\<open>lastIndex\<close> values the first one left in
  the module's patterns, and the findings of a scan are the same from every state of the
  patterns. The patterns carry nothing over: \<^verbatim>\<open>match\<close> returns the same from every
  \<^verbatim>\<open>lastIndex\<close> and leaves it at 0.
\<close>

theorem scanForPHI_twice:
  "fst (scanForPHI (snd (scanForPHI st v p)) v p) = fst (scanForPHI st v p)
   \<and> fst (scanForPHI st v p) = fst (scanForPHI st' v p)
   \<and> string_match re li s = string_match re li' s
   \<and> snd (string_match re li s) = 0"
proof -
  have "fst (scanForPHI (snd (scanForPHI st v p)) v p) = fst (scanForPHI st v p)"
    by (rule scanForPHI_fst)
  moreover have "fst (scanForPHI st v p) = fst (scanForPHI st' v p)"
    by (rule scanForPHI_fst)
  moreover have "string_match re li s = string_match re li' s"
    by (rule string_match_lastIndex)
  moreover have "snd (string_match re li s) = 0"
    by (rule string_match_snd)
  ultimately show ?thesis by simp
qed

text \<open>
  C9. The findings of a scan do not depend on what the fields named \<^verbatim>\<open>_\<close>,
  \<^verbatim>\<open>createdAt\<close> and \<^verbatim>\<open>updatedAt\<close> hold, at any depth: two records that are equal once
  these fields are removed have the same findings, from whatever state of the patterns.
\<close>

theorem skipped_fields_not_scanned:
  assumes "strip_skipped v = strip_skipped w"
  shows "fst (scanForPHI st v p) = fst (scanForPHI st' w p)"
proof -
  have "fst (scanForPHI st v p) = fst (scanForPHI st (strip_skipped v) p)"
    by (simp add: strip_scan_all(1))
  also have "\<dots> = fst (scanForPHI st (strip_skipped w) p)" by (simp add: assms)
  also have "\<dots> = fst (scanForPHI st w p)" by (simp add: strip_scan_all(1))
  also have "\<dots> = fst (scanForPHI st' w p)" by (rule scanForPHI_fst)
  finally show ?thesis .
qed

theorem skipped_fields_not_scanned_witness:
  "strip_skipped hidden_a = strip_skipped hidden_b
   \<and> fst (scanForPHI (\<lambda>d. 0) hidden_a []) = fst (scanForPHI (\<lambda>d. 0) hidden_b [])
   \<and> fst (scanForPHI (\<lambda>d. 0) hidden_a [])
       = [\<lparr>field = ''logs[0].note'',
            violations = [\<lparr>type = phone, count = 1, sample = ''555-123-4567...''\<rparr>]\<rparr>]"
proof -
  have a: "strip_skipped hidden_a = strip_skipped hidden_b"
    by (simp add: hidden_a_def hidden_b_def skipped_def)
  have b: "fst (scanForPHI (\<lambda>d. 0) hidden_a [])
       = [\<lparr>field = ''logs[0].note'',
            violations = [\<lparr>type = phone, count = 1, sample = ''555-123-4567...''\<rparr>]\<rparr>]"
    by code_simp
  from skipped_fields_not_scanned [OF a, of "\<lambda>d. 0" "[]" "\<lambda>d. 0"] a b show ?thesis by simp
qed

text \<open>
  C10. For every address \<open>l@d\<close> (no other \<^verbatim>\<open>@\<close> in it) whose domain \<open>d\<close> starts with
  \<^verbatim>\<open>hospital\<close>, \<^verbatim>\<open>healthsystem\<close>, \<^verbatim>\<open>medical\<close> or \<^verbatim>\<open>nicu\<close>, the personal-email pattern
  has no match, and detectPHI reports no personal-email violation: the lookahead of the
  pattern tests a prefix of the domain, so a domain such as \<^verbatim>\<open>hospitality.com\<close> passes
  as institutional.
\<close>

theorem institutional_prefix_never_flagged:
  assumes "CHR ''@'' \<notin> set l" and "CHR ''@'' \<notin> set d"
    and "\<exists>pre \<in> set institutional. startsWith d pre"
  shows "fst (string_match personalEmail_re li (l @ ''@'' @ d)) = None
         \<and> (\<forall>vs. fst (detectPHI st (JStr (l @ ''@'' @ d))) = Some vs \<longrightarrow>
                (\<forall>x \<in> set vs. type x \<noteq> personalEmail))"
proof -
  from assms(3) obtain pre where pre: "pre \<in> set institutional" and "startsWith d pre" by blast
  then have d: "d = pre @ drop (length pre) d"
    by (metis append_take_drop_id startsWith_def)
  let ?s = "l @ ''@'' @ d"
  from assms(2) d have "CHR ''@'' \<notin> set (pre @ drop (length pre) d)" by simp
  from personalEmail_institutional [OF assms(1) this pre] d
  have none: "string_match personalEmail_re li' ?s = (None, 0)" for li' by simp
  have "type x \<noteq> personalEmail" if x: "x \<in> set (fst (detect_loop st ?s PHI_PATTERNS))" for x
  proof
    assume t: "type x = personalEmail"
    from x obtain ty re where mem: "(ty, re) \<in> set PHI_PATTERNS"
      and rep: "x \<in> set (report ty (fst (string_match re 0 ?s)))"
      unfolding detect_loop_fst by auto
    from report_type [OF rep] t have "ty = personalEmail" by simp
    with mem have "re = personalEmail_re" by (auto simp: PHI_PATTERNS_def)
    with rep none [of 0] show False by (simp add: report_None)
  qed
  then have "\<forall>vs. fst (detectPHI st (JStr ?s)) = Some vs \<longrightarrow> (\<forall>x \<in> set vs. type x \<noteq> personalEmail)"
    by (cases "detect_loop st ?s PHI_PATTERNS") (auto simp: detectPHI_def split: if_splits)
  with none [of li] show ?thesis by simp
qed

theorem institutional_prefix_never_flagged_witness:
  "CHR ''@'' \<notin> set ''info'' \<and> CHR ''@'' \<notin> set ''hospitality.com''
   \<and> (\<exists>pre \<in> set institutional. startsWith ''hospitality.com'' pre)
   \<and> fst (string_match personalEmail_re 0 ''info@hospitality.com'') = None
   \<and> fst (detectPHI (\<lambda>d. 0) (JStr ''info@hospitality.com'')) = None"
proof -
  have a: "CHR ''@'' \<notin> set ''info''" by simp
  have b: "CHR ''@'' \<notin> set ''hospitality.com''" by simp
  have c: "\<exists>pre \<in> set institutional. startsWith ''hospitality.com'' pre"
    by (simp add: institutional_def startsWith_def)
  have d: "fst (detectPHI (\<lambda>d. 0) (JStr ''info@hospitality.com'')) = None" by code_simp
  from institutional_prefix_never_flagged [OF a b c, of 0] a b c d show ?thesis by simp
qed

end
